theory Spec2Isabelle
  imports Main "HOL-Library.Word" "HOL-Library.List_Lexorder" "HOL-Library.Sublist"
begin

unbundle bit_operations_syntax

section \<open>Bytes, errors and time\<close>

text \<open>
  A Go \<^verbatim>\<open>[]byte\<close> is a list of 8-bit words. \<^verbatim>\<open>bytes.Compare\<close> is the
  lexicographic order on unsigned bytes, which is the order of lists of words.
  Go does not distinguish a nil slice from an empty one by \<^verbatim>\<open>len\<close>; both are \<open>[]\<close>.
  A run-time panic is an error value that every caller propagates.
\<close>

type_synonym byte = "8 word"
type_synonym bytes = "byte list"

datatype error =
    ErrInvalidArgsLen nat
  | ErrMissingStart
  | ErrMissingEnd
  | ErrMissingValue
  | ErrNoSuchFile string
  | ErrIO string
  | EOF
  | ErrHandler string
  | PanicIndexOutOfRange

section \<open>The ordered tree behind the in-memory storage\<close>

text \<open>
  Modelled from the spec: \<^verbatim>\<open>util.KVTree\<close>, the ordered tree held in \<^verbatim>\<open>Storage.kv\<close>, is
  not among the sources. It is modelled as an association list in strictly ascending key
  order, with the contracts the storage documents for the methods that delegate to it:
  \<^verbatim>\<open>Scan\<close> visits the pairs in \<open>[start, end)\<close> in ascending order and stops when the
  handler returns false or an error, \<^verbatim>\<open>RangeDelete\<close> removes the data in \<open>[start, end)\<close>,
  \<^verbatim>\<open>Seek\<close> returns the first pair whose key is \<open>\<ge>\<close> the given key, and \<^verbatim>\<open>Get\<close> of an
  absent key is the nil slice.
\<close>

type_synonym KVTree = "(bytes \<times> bytes) list"

definition NewKVTree :: KVTree where
  "NewKVTree = []"

fun kv_Put :: "bytes \<Rightarrow> bytes \<Rightarrow> KVTree \<Rightarrow> KVTree" where
  "kv_Put k v [] = [(k, v)]"
| "kv_Put k v ((k', v') # t) =
     (if k < k' then (k, v) # (k', v') # t
      else if k = k' then (k, v) # t
      else (k', v') # kv_Put k v t)"

definition kv_Get :: "bytes \<Rightarrow> KVTree \<Rightarrow> bytes" where
  "kv_Get k t = (case map_of t k of None \<Rightarrow> [] | Some v \<Rightarrow> v)"

definition kv_Delete :: "bytes \<Rightarrow> KVTree \<Rightarrow> KVTree" where
  "kv_Delete k t = filter (\<lambda>(k', v). k' \<noteq> k) t"

definition in_range :: "bytes \<Rightarrow> bytes \<Rightarrow> bytes \<Rightarrow> bool" where
  "in_range start end k = (start \<le> k \<and> k < end)"

definition kv_RangeDelete :: "bytes \<Rightarrow> bytes \<Rightarrow> KVTree \<Rightarrow> KVTree" where
  "kv_RangeDelete start end t = filter (\<lambda>(k, v). \<not> in_range start end k) t"

text \<open>
  A scan handler is a closure over mutable state: it takes the state and returns the new
  state, whether to go on, and the error.
\<close>

type_synonym 'st handler = "bytes \<Rightarrow> bytes \<Rightarrow> 'st \<Rightarrow> 'st \<times> bool \<times> error option"

fun kv_visit :: "(bytes \<times> bytes) list \<Rightarrow> 'st handler \<Rightarrow> 'st \<Rightarrow> 'st \<times> error option" where
  "kv_visit [] h st = (st, None)"
| "kv_visit ((k, v) # t) h st =
     (case h k v st of (st', c, err) \<Rightarrow>
        if err \<noteq> None \<or> \<not> c then (st', err) else kv_visit t h st')"

definition kv_Scan :: "bytes \<Rightarrow> bytes \<Rightarrow> 'st handler \<Rightarrow> KVTree \<Rightarrow> 'st \<Rightarrow> 'st \<times> error option" where
  "kv_Scan start end h t st = kv_visit (filter (\<lambda>(k, v). in_range start end k) t) h st"

section \<open>The in-memory storage\<close>

text \<open>
  Modelled from the spec: \<^verbatim>\<open>vfs.FS\<close> and its files are not among the sources. The file
  system holds the contents of its files by path; directories are not tracked. Whether
  an operation fails is the file system's to decide and is a parameter: \<^verbatim>\<open>MkdirAll\<close>,
  \<^verbatim>\<open>Create\<close> and \<^verbatim>\<open>Open\<close> fail by path, a \<^verbatim>\<open>Write\<close> by the contents so far and the
  data (with the number of bytes it still wrote), a \<^verbatim>\<open>Read\<close> by the bytes left and the
  size of the buffer. \<^verbatim>\<open>Create\<close> truncates, \<^verbatim>\<open>Open\<close> of a missing file fails, a
  successful write appends.
\<close>

record FS =
  files :: "string \<rightharpoonup> bytes"
  MkdirAll_err :: "string \<Rightarrow> error option"
  Create_err :: "string \<Rightarrow> error option"
  Open_err :: "string \<Rightarrow> error option"
  Write_err :: "bytes \<Rightarrow> bytes \<Rightarrow> (error \<times> nat) option"
  Read_err :: "bytes \<Rightarrow> nat \<Rightarrow> error option"

record Stats =
  WrittenKeys :: "64 word"
  WrittenBytes :: "64 word"

record Storage =
  fs :: FS
  kv :: KVTree
  stats :: Stats
  SyncCount :: "64 word"

definition NewStorage :: "FS \<Rightarrow> Storage" where
  "NewStorage f = \<lparr>fs = f, kv = NewKVTree,
     stats = \<lparr>WrittenKeys = 0, WrittenBytes = 0\<rparr>, SyncCount = 0\<rparr>"

definition addWrittenKeys :: "64 word \<Rightarrow> Storage \<Rightarrow> Storage" where
  "addWrittenKeys n s = s\<lparr>stats := (stats s)\<lparr>WrittenKeys := WrittenKeys (stats s) + n\<rparr>\<rparr>"

definition addWrittenBytes :: "64 word \<Rightarrow> Storage \<Rightarrow> Storage" where
  "addWrittenBytes n s = s\<lparr>stats := (stats s)\<lparr>WrittenBytes := WrittenBytes (stats s) + n\<rparr>\<rparr>"

subsection \<open>Value encoding\<close>

text \<open>
  \<^verbatim>\<open>buf.Int64ToBytesTo\<close> and \<^verbatim>\<open>buf.Byte2Int64\<close> (goetty) are the big-endian encoding of
  a 64-bit integer. \<^verbatim>\<open>Byte2Int64\<close> indexes \<open>data[0..7]\<close> and panics on a shorter slice.
  The clock is the Unix time in seconds, a signed 64-bit integer.
\<close>

definition Int64ToBytes :: "64 word \<Rightarrow> bytes" where
  "Int64ToBytes v = map (\<lambda>i. ucast (drop_bit (8 * i) v)) [7, 6, 5, 4, 3, 2, 1, 0 :: nat]"

definition Byte2Int64 :: "bytes \<Rightarrow> error + 64 word" where
  "Byte2Int64 data =
     (if length data < 8 then Inl PanicIndexOutOfRange
      else Inr (foldl (\<lambda>acc b. push_bit 8 acc OR ucast b) 0 (take 8 data)))"

definition encodeValue :: "bytes \<Rightarrow> 64 word \<Rightarrow> bytes" where
  "encodeValue val expireAt = Int64ToBytes expireAt @ val"

definition decodeValue :: "64 word \<Rightarrow> bytes \<Rightarrow> error + bytes" where
  "decodeValue now val =
     (if length val = 0 then Inr []
      else case Byte2Int64 val of
             Inl e \<Rightarrow> Inl e
           | Inr expireAt \<Rightarrow>
               if expireAt \<noteq> 0 \<and> expireAt <s now then Inr [] else Inr (drop 8 val))"

subsection \<open>Writes\<close>

definition SetWithTTL :: "64 word \<Rightarrow> bytes \<Rightarrow> bytes \<Rightarrow> 32 word \<Rightarrow> Storage \<Rightarrow> error option \<times> Storage" where
  "SetWithTTL now key val ttl s =
     (let s1 = addWrittenKeys 1 s;
          s2 = addWrittenBytes (of_nat (length val + length key)) s1
      in if 0 <s ttl
         then (None, s2\<lparr>kv := kv_Put key (encodeValue val (now + scast ttl)) (kv s2)\<rparr>)
         else (None, s2\<lparr>kv := kv_Put key (encodeValue val 0) (kv s2)\<rparr>))"

definition Set :: "64 word \<Rightarrow> bytes \<Rightarrow> bytes \<Rightarrow> Storage \<Rightarrow> error option \<times> Storage" where
  "Set now key val s =
     (let s1 = addWrittenKeys 1 s;
          s2 = addWrittenBytes (of_nat (length val + length key)) s1
      in SetWithTTL now key val 0 s2)"

definition BatchSet_step :: "64 word \<Rightarrow> bytes list \<Rightarrow> nat \<Rightarrow> Storage \<Rightarrow> Storage" where
  "BatchSet_step now pairs i s =
     (let s1 = snd (Set now (pairs ! (2 * i)) (pairs ! (2 * i + 1)) s)
      in addWrittenBytes (of_nat (length (pairs ! (2 * i)) + length (pairs ! (2 * i + 1)))) s1)"

definition BatchSet :: "64 word \<Rightarrow> bytes list \<Rightarrow> Storage \<Rightarrow> error option \<times> Storage" where
  "BatchSet now pairs s =
     (if length pairs mod 2 \<noteq> 0 then (Some (ErrInvalidArgsLen (length pairs)), s)
      else let s1 = addWrittenKeys (of_nat (length pairs div 2)) s
           in (None, fold (BatchSet_step now pairs) [0 ..< length pairs div 2] s1))"

definition Get :: "64 word \<Rightarrow> bytes \<Rightarrow> Storage \<Rightarrow> error + bytes" where
  "Get now key s = decodeValue now (kv_Get key (kv s))"

definition Delete :: "bytes \<Rightarrow> Storage \<Rightarrow> error option \<times> Storage" where
  "Delete key s =
     (let s1 = addWrittenKeys 1 s;
          s2 = addWrittenBytes (of_nat (length key)) s1
      in (None, s2\<lparr>kv := kv_Delete key (kv s2)\<rparr>))"

definition RangeDelete :: "bytes \<Rightarrow> bytes \<Rightarrow> Storage \<Rightarrow> error option \<times> Storage" where
  "RangeDelete start end s =
     (let s1 = addWrittenKeys 2 s;
          s2 = addWrittenBytes (of_nat (length start + length end)) s1
      in (None, s2\<lparr>kv := kv_RangeDelete start end (kv s2)\<rparr>))"

subsection \<open>Reads\<close>

text \<open>
  The closure that \<^verbatim>\<open>Scan\<close> hands to the tree decodes the stored value, skips the row
  when the decoded value is empty, and otherwise calls the caller's handler.
  \<^verbatim>\<open>decodeValue\<close> reads \<^verbatim>\<open>time.Now()\<close> each time it is called, once per row: \<open>clock n\<close> is
  the Unix time when the scan decodes its \<open>n\<close>-th row, and the closure counts the rows.
\<close>

definition Scan_callback :: "(nat \<Rightarrow> 64 word) \<Rightarrow> 'st handler \<Rightarrow> (nat \<times> 'st) handler" where
  "Scan_callback clock handler key val = (\<lambda>(n, st).
     case decodeValue (clock n) val of
       Inl e \<Rightarrow> ((Suc n, st), False, Some e)
     | Inr v \<Rightarrow>
         if length v = 0 then ((Suc n, st), True, None)
         else (case handler key v st of (st', c, err) \<Rightarrow> ((Suc n, st'), c, err)))"

definition Scan :: "(nat \<Rightarrow> 64 word) \<Rightarrow> bytes \<Rightarrow> bytes \<Rightarrow> 'st handler \<Rightarrow> bool \<Rightarrow> Storage \<Rightarrow> 'st \<Rightarrow> 'st \<times> error option" where
  "Scan clock start end handler pooledKey s st =
     (case kv_Scan start end (Scan_callback clock handler) (kv s) (0, st) of
        ((n, st'), err) \<Rightarrow> (st', err))"

text \<open>
  To observe which rows reach the handler, the handler is wrapped so that it logs every
  call it receives before running.
\<close>

definition recording :: "'st handler \<Rightarrow> ((bytes \<times> bytes) list \<times> 'st) handler" where
  "recording h key val = (\<lambda>(calls, st).
     case h key val st of (st', c, err) \<Rightarrow> ((calls @ [(key, val)], st'), c, err))"

definition delivered :: "(nat \<Rightarrow> 64 word) \<Rightarrow> bytes \<Rightarrow> bytes \<Rightarrow> 'st handler \<Rightarrow> Storage \<Rightarrow> 'st \<Rightarrow> (bytes \<times> bytes) list" where
  "delivered clock start end h s st = fst (fst (Scan clock start end (recording h) False s ([], st)))"

text \<open>What the tree's visit leaves in the log.\<close>

definition logged :: "((nat \<times> (bytes \<times> bytes) list \<times> 'st) \<times> error option) \<Rightarrow> (bytes \<times> bytes) list" where
  "logged r = fst (snd (fst r))"

text \<open>
  The rows the specification expects a scan to deliver: the stored rows of the range, in
  key order, whose value, decoded at the time the scan comes to the row, is not empty, each
  with its decoded value; and of these, the rows up to and including the first on which
  the handler returns false or an error.
\<close>

definition row_of :: "64 word \<Rightarrow> bytes \<times> bytes \<Rightarrow> (bytes \<times> bytes) list" where
  "row_of now kr =
     (case decodeValue now (snd kr) of
        Inl e \<Rightarrow> []
      | Inr v \<Rightarrow> if v = [] then [] else [(fst kr, v)])"

fun nonempty_from :: "(nat \<Rightarrow> 64 word) \<Rightarrow> nat \<Rightarrow> (bytes \<times> bytes) list \<Rightarrow> (bytes \<times> bytes) list" where
  "nonempty_from clock n [] = []"
| "nonempty_from clock n (kr # rows) = row_of (clock n) kr @ nonempty_from clock (Suc n) rows"

definition nonempty_rows :: "(nat \<Rightarrow> 64 word) \<Rightarrow> bytes \<Rightarrow> bytes \<Rightarrow> KVTree \<Rightarrow> (bytes \<times> bytes) list" where
  "nonempty_rows clock start end t =
     nonempty_from clock 0 (filter (\<lambda>(k, v). in_range start end k) t)"

fun until_stop :: "'st handler \<Rightarrow> (bytes \<times> bytes) list \<Rightarrow> 'st \<Rightarrow> (bytes \<times> bytes) list" where
  "until_stop h [] st = []"
| "until_stop h ((k, v) # rows) st =
     (case h k v st of (st', c, err) \<Rightarrow>
        (k, v) # (if err \<noteq> None \<or> \<not> c then [] else until_stop h rows st'))"

subsection \<open>Snapshots\<close>

text \<open>
  A snapshot file is a sequence of frames, each a 4-byte big-endian length followed by the
  data: the start key, the end key, then key and value of every pair of the range.
  An open file is the list of bytes not yet read. Unless the file system makes it fail,
  \<^verbatim>\<open>Read\<close> at the end of the file returns 0 bytes and \<^verbatim>\<open>io.EOF\<close>, otherwise as many bytes
  as the buffer takes and the file has. \<^verbatim>\<open>readBytes\<close> loops until it has read the
  announced number of bytes, and ignores \<^verbatim>\<open>io.EOF\<close>: on a truncated file it never
  returns, which is the result \<open>None\<close>.
\<close>

definition PathJoin :: "string \<Rightarrow> string \<Rightarrow> string" where
  "PathJoin dir name = dir @ ''/'' @ name"

definition PutUint32 :: "32 word \<Rightarrow> bytes" where
  "PutUint32 v = map (\<lambda>i. ucast (drop_bit (8 * i) v)) [3, 2, 1, 0 :: nat]"

definition Uint32 :: "bytes \<Rightarrow> 32 word" where
  "Uint32 b = foldl (\<lambda>acc x. push_bit 8 acc OR ucast x) 0 (take 4 b)"

definition file_Write :: "FS \<Rightarrow> bytes \<Rightarrow> bytes \<Rightarrow> error option \<times> bytes" where
  "file_Write fsys f p =
     (case Write_err fsys f p of
        None \<Rightarrow> (None, f @ p)
      | Some (e, n) \<Rightarrow> (Some e, f @ take n p))"

definition file_Read :: "FS \<Rightarrow> bytes \<Rightarrow> nat \<Rightarrow> bytes \<times> error option \<times> bytes" where
  "file_Read fsys f n =
     (case Read_err fsys f n of
        Some e \<Rightarrow> ([], Some e, f)
      | None \<Rightarrow> if f = [] then ([], Some EOF, f) else (take n f, None, drop n f))"

definition writeBytes :: "FS \<Rightarrow> bytes \<Rightarrow> bytes \<Rightarrow> error option \<times> bytes" where
  "writeBytes fsys f data =
     (let size = PutUint32 (of_nat (length data)) in
      case file_Write fsys f size of
        (Some e, f1) \<Rightarrow> (Some e, f1)
      | (None, f1) \<Rightarrow>
          (case file_Write fsys f1 data of
             (Some e, f2) \<Rightarrow> (Some e, f2)
           | (None, f2) \<Rightarrow> (None, f2)))"

text \<open>The test \<^verbatim>\<open>err != nil && err != io.EOF\<close> of the loop of \<^verbatim>\<open>readBytes\<close>.\<close>

definition failed_read :: "error option \<Rightarrow> error option" where
  "failed_read err = (case err of None \<Rightarrow> None | Some e \<Rightarrow> if e = EOF then None else Some e)"

partial_function (option) readBytes_loop :: "FS \<Rightarrow> bytes \<Rightarrow> nat \<Rightarrow> bytes \<Rightarrow> ((error + bytes) \<times> bytes) option" where
  "readBytes_loop fsys f tot data =
     (case file_Read fsys f (tot - length data) of (chunk, err, f') \<Rightarrow>
        (case failed_read err of
           Some e \<Rightarrow> Some (Inl e, f')
         | None \<Rightarrow>
             let data' = data @ chunk in
             if length data' = tot then Some (Inr data', f')
             else readBytes_loop fsys f' tot data'))"

declare readBytes_loop.simps [code]

definition readBytes :: "FS \<Rightarrow> bytes \<Rightarrow> ((error + bytes) \<times> bytes) option" where
  "readBytes fsys f =
     (case file_Read fsys f 4 of (hdr, err, f1) \<Rightarrow>
        if length hdr = 0 \<and> err = Some EOF then Some (Inr [], f1)
        else let size = hdr @ replicate (4 - length hdr) 0;
                 tot = unat (Uint32 size)
             in readBytes_loop fsys f1 tot [])"

definition snapshot_callback :: "FS \<Rightarrow> bytes handler" where
  "snapshot_callback fsys key val f =
     (case writeBytes fsys f key of
        (Some e, f1) \<Rightarrow> (f1, False, Some e)
      | (None, f1) \<Rightarrow>
          (case writeBytes fsys f1 val of
             (Some e, f2) \<Rightarrow> (f2, False, Some e)
           | (None, f2) \<Rightarrow> (f2, True, None)))"

text \<open>
  \<^verbatim>\<open>CreateSnapshot\<close> returns the error of \<^verbatim>\<open>MkdirAll\<close>, of \<^verbatim>\<open>Create\<close> and of any write.
  The file holds what was written when the deferred \<^verbatim>\<open>Close\<close> runs.
\<close>

definition put_file :: "string \<Rightarrow> bytes \<Rightarrow> Storage \<Rightarrow> Storage" where
  "put_file name f s = s\<lparr>fs := (fs s)\<lparr>files := (files (fs s))(name \<mapsto> f)\<rparr>\<rparr>"

definition CreateSnapshot :: "string \<Rightarrow> bytes \<Rightarrow> bytes \<Rightarrow> Storage \<Rightarrow> error option \<times> Storage" where
  "CreateSnapshot path start end s =
     (case MkdirAll_err (fs s) path of
        Some e \<Rightarrow> (Some e, s)
      | None \<Rightarrow>
          (let name = PathJoin path ''db.data'' in
           case Create_err (fs s) name of
             Some e \<Rightarrow> (Some e, s)
           | None \<Rightarrow>
               (case writeBytes (fs s) [] start of
                  (Some e, f1) \<Rightarrow> (Some e, put_file name f1 s)
                | (None, f1) \<Rightarrow>
                    (case writeBytes (fs s) f1 end of
                       (Some e, f2) \<Rightarrow> (Some e, put_file name f2 s)
                     | (None, f2) \<Rightarrow>
                         (case kv_Scan start end (snapshot_callback (fs s)) (kv s) f2 of
                            (f3, err) \<Rightarrow> (err, put_file name f3 s))))))"

text \<open>The end of the loop body of \<^verbatim>\<open>ApplySnapshot\<close>: count the pair and store it.\<close>

definition ApplySnapshot_put :: "bytes \<Rightarrow> bytes \<Rightarrow> Storage \<Rightarrow> Storage" where
  "ApplySnapshot_put key val s =
     (let s1 = addWrittenKeys 1 s;
          s2 = addWrittenBytes (of_nat (length key + length val)) s1
      in s2\<lparr>kv := kv_Put key val (kv s2)\<rparr>)"

partial_function (option) ApplySnapshot_loop :: "bytes \<Rightarrow> Storage \<Rightarrow> (error option \<times> Storage) option" where
  "ApplySnapshot_loop f s =
     (case readBytes (fs s) f of
        None \<Rightarrow> None
      | Some (Inl e, f1) \<Rightarrow> Some (Some e, s)
      | Some (Inr key, f1) \<Rightarrow>
          if length key = 0 then Some (None, s)
          else (case readBytes (fs s) f1 of
                  None \<Rightarrow> None
                | Some (Inl e, f2) \<Rightarrow> Some (Some e, s)
                | Some (Inr val, f2) \<Rightarrow>
                    if length val = 0 then Some (Some ErrMissingValue, s)
                    else ApplySnapshot_loop f2 (ApplySnapshot_put key val s)))"

declare ApplySnapshot_loop.simps [code]

definition ApplySnapshot :: "string \<Rightarrow> Storage \<Rightarrow> (error option \<times> Storage) option" where
  "ApplySnapshot path s =
     (let name = PathJoin path ''db.data'' in
      case Open_err (fs s) name of
        Some e \<Rightarrow> Some (Some e, s)
      | None \<Rightarrow>
          (case files (fs s) name of
             None \<Rightarrow> Some (Some (ErrNoSuchFile name), s)
           | Some f \<Rightarrow>
               (case readBytes (fs s) f of
                  None \<Rightarrow> None
                | Some (Inl e, f1) \<Rightarrow> Some (Some e, s)
                | Some (Inr start, f1) \<Rightarrow>
                    if length start = 0 then Some (Some ErrMissingStart, s)
                    else (case readBytes (fs s) f1 of
                            None \<Rightarrow> None
                          | Some (Inl e, f2) \<Rightarrow> Some (Some e, s)
                          | Some (Inr end, f2) \<Rightarrow>
                              if length end = 0 then Some (Some ErrMissingEnd, s)
                              else ApplySnapshot_loop f2
                                     (s\<lparr>kv := kv_RangeDelete start end (kv s)\<rparr>)))))"

definition never_stops :: "'st handler \<Rightarrow> bool" where
  "never_stops h = (\<forall>k v st. fst (snd (h k v st)) \<and> snd (snd (h k v st)) = None)"

text \<open>
  \<^verbatim>\<open>Byte2Int64\<close> panics on a stored value of 1 to 7 bytes. Every value written by
  \<^verbatim>\<open>Set\<close> or \<^verbatim>\<open>SetWithTTL\<close> has at least 8 bytes.
\<close>

definition decodable :: "KVTree \<Rightarrow> bool" where
  "decodable t = list_all (\<lambda>(k, raw). length raw = 0 \<or> 8 \<le> length raw) t"

text \<open>A file system on which no write, no read, and nothing done for a given snapshot directory fails.\<close>

definition writes_ok :: "FS \<Rightarrow> bool" where
  "writes_ok fsys = (\<forall>f p. Write_err fsys f p = None)"

definition reads_ok :: "FS \<Rightarrow> bool" where
  "reads_ok fsys = (\<forall>f n. Read_err fsys f n = None)"

definition fs_ok :: "string \<Rightarrow> FS \<Rightarrow> bool" where
  "fs_ok path fsys =
     (MkdirAll_err fsys path = None
      \<and> Create_err fsys (PathJoin path ''db.data'') = None
      \<and> Open_err fsys (PathJoin path ''db.data'') = None
      \<and> writes_ok fsys \<and> reads_ok fsys)"

subsection \<open>Sample data\<close>

definition emptyFS :: FS where
  "emptyFS = \<lparr>files = Map.empty, MkdirAll_err = (\<lambda>path. None), Create_err = (\<lambda>path. None),
     Open_err = (\<lambda>path. None), Write_err = (\<lambda>f p. None), Read_err = (\<lambda>f n. None)\<rparr>"

text \<open>A file system in which \<open>''f''\<close> is a regular file, so that no directory can be made under it.\<close>

definition file_in_the_way :: FS where
  "file_in_the_way = emptyFS\<lparr>files := [''f'' \<mapsto> []],
     MkdirAll_err := (\<lambda>path. if take 2 path = ''f/'' then Some (ErrIO ''not a directory'') else None)\<rparr>"

definition two_rows :: Storage where
  "two_rows = snd (Set 0 [2] [9] (snd (Set 0 [1] [9] (NewStorage emptyFS))))"

text \<open>Three rows, the middle one written at time 5 to live 5 seconds.\<close>

definition three_rows :: Storage where
  "three_rows = snd (Set 5 [3] [9] (snd (SetWithTTL 5 [2] [8] 5 (snd (Set 5 [1] [7] (NewStorage emptyFS))))))"

definition stop_at_first :: "unit handler" where
  "stop_at_first key val st = (st, False, None)"

definition keep_going :: "unit handler" where
  "keep_going key val st = (st, True, None)"

definition clock_at :: "64 word \<Rightarrow> nat \<Rightarrow> 64 word" where
  "clock_at t n = t"

text \<open>A clock that shows 10 for the first row of a scan and 11 from the second row on.\<close>

definition ticking_clock :: "nat \<Rightarrow> 64 word" where
  "ticking_clock n = (if n = 0 then 10 else 11)"

subsection \<open>The layout of a snapshot file\<close>

text \<open>
  These definitions describe what \<^verbatim>\<open>writeBytes\<close> produces; the properties below relate the
  code to them.
\<close>

definition frame :: "bytes \<Rightarrow> bytes" where
  "frame d = PutUint32 (of_nat (length d)) @ d"

definition frame2 :: "bytes \<times> bytes \<Rightarrow> bytes" where
  "frame2 p = frame (fst p) @ frame (snd p)"

definition framable :: "bytes \<times> bytes \<Rightarrow> bool" where
  "framable p = (fst p \<noteq> [] \<and> length (fst p) < 2 ^ 32 \<and> snd p \<noteq> [] \<and> length (snd p) < 2 ^ 32)"

text \<open>
  What the round trip needs of a storage and a range: the tree's keys ascend strictly (the
  tree's own invariant) and lie in the range, the start key is not empty, and every length
  fits the 4-byte prefix. A stored value is never empty: \<^verbatim>\<open>encodeValue\<close> makes it at least
  8 bytes long, and \<^verbatim>\<open>ApplySnapshot\<close> refuses an empty one.
\<close>

definition all_in_range :: "bytes \<Rightarrow> bytes \<Rightarrow> KVTree \<Rightarrow> bool" where
  "all_in_range start end t = list_all (\<lambda>(k, v). in_range start end k) t"

definition snapshot_ready :: "bytes \<Rightarrow> bytes \<Rightarrow> KVTree \<Rightarrow> bool" where
  "snapshot_ready start end t =
     (sorted_wrt (<) (map fst t)
      \<and> all_in_range start end t
      \<and> start \<noteq> [] \<and> length start < 2 ^ 32 \<and> length end < 2 ^ 32
      \<and> list_all (\<lambda>(k, v). length k < 2 ^ 32 \<and> v \<noteq> [] \<and> length v < 2 ^ 32) t)"

definition snapshot_of :: "string \<Rightarrow> bytes \<Rightarrow> bytes \<Rightarrow> Storage \<Rightarrow> Storage" where
  "snapshot_of path start end s = NewStorage (fs (snd (CreateSnapshot path start end s)))"

section \<open>The evict-leader scheduler\<close>

definition EvictLeaderBatchSize :: nat where
  "EvictLeaderBatchSize = 3"

text \<open>
  Modelled from the spec: the cached resource and the operator (\<^verbatim>\<open>core\<close>, \<^verbatim>\<open>operator\<close>)
  are not among the sources. They are records of what the scheduler reads and writes: a
  resource has an id and the container of its leader; an operator has a description, a
  target resource id, the two ends of the leader transfer, a priority and its counters.
\<close>

record CachedResource =
  res_ID :: "64 word"
  res_Leader :: "64 word"

record Operator =
  op_Desc :: string
  op_ResourceID :: "64 word"
  op_From :: "64 word"
  op_To :: "64 word"
  op_HighPriority :: bool
  op_Counters :: "string list"

text \<open>
  The cluster (\<^verbatim>\<open>opt.Cluster\<close>), the candidate filter and the operator builder are
  interfaces whose implementations are not among the sources, and two of them choose at
  random. They are parameters: what each returns in a given round of \<^verbatim>\<open>Schedule\<close> for a
  given configured container id. The configuration is a Go map, iterated in no fixed
  order: it is the list of its keys in the order the iteration happens to take.
\<close>

record Cluster =
  RandLeaderResource :: "nat \<Rightarrow> 64 word \<Rightarrow> CachedResource option"
  PickTarget :: "nat \<Rightarrow> CachedResource \<Rightarrow> 64 word option"
  CreateTransferLeaderOperator :: "CachedResource \<Rightarrow> 64 word \<Rightarrow> 64 word \<Rightarrow> string + Operator"

definition scheduleOnce_step :: "Cluster \<Rightarrow> nat \<Rightarrow> 64 word \<Rightarrow> Operator list \<Rightarrow> Operator list" where
  "scheduleOnce_step cluster round cid ops =
     (case RandLeaderResource cluster round cid of
        None \<Rightarrow> ops
      | Some res \<Rightarrow>
          (case PickTarget cluster round res of
             None \<Rightarrow> ops
           | Some target \<Rightarrow>
               (case CreateTransferLeaderOperator cluster res (res_Leader res) target of
                  Inl err \<Rightarrow> ops
                | Inr op \<Rightarrow>
                    ops @ [op\<lparr>op_HighPriority := True,
                               op_Counters := op_Counters op @ [''new-operator'']\<rparr>])))"

definition scheduleOnce :: "Cluster \<Rightarrow> 64 word list \<Rightarrow> nat \<Rightarrow> Operator list" where
  "scheduleOnce cluster conf round = fold (scheduleOnce_step cluster round) conf []"

fun uniqueAppend_loop :: "64 word set \<Rightarrow> Operator list \<Rightarrow> Operator list \<Rightarrow> Operator list" where
  "uniqueAppend_loop resIDs dst [] = dst"
| "uniqueAppend_loop resIDs dst (x # src) =
     (if op_ResourceID x \<in> resIDs then uniqueAppend_loop resIDs dst src
      else uniqueAppend_loop (insert (op_ResourceID x) resIDs) (dst @ [x]) src)"

definition uniqueAppend :: "Operator list \<Rightarrow> Operator list \<Rightarrow> Operator list" where
  "uniqueAppend dst src = uniqueAppend_loop (set (map op_ResourceID dst)) dst src"

function Schedule_loop :: "Cluster \<Rightarrow> 64 word list \<Rightarrow> nat \<Rightarrow> Operator list \<Rightarrow> Operator list" where
  "Schedule_loop cluster conf i ops =
     (if i < EvictLeaderBatchSize then
        (let once = scheduleOnce cluster conf i in
         if length once = 0 then ops
         else (let ops' = uniqueAppend ops once in
               if length ops' > EvictLeaderBatchSize then ops'
               else Schedule_loop cluster conf (i + 1) ops'))
      else ops)"
  by pat_completeness auto
termination
  by (relation "measure (\<lambda>(cluster, conf, i, ops). EvictLeaderBatchSize - i)") auto

definition Schedule :: "Cluster \<Rightarrow> 64 word list \<Rightarrow> Operator list" where
  "Schedule cluster conf = Schedule_loop cluster conf 0 []"

text \<open>A cluster in which container \<open>i\<close> leads resource \<open>i\<close> and container 9 can take any leader.\<close>

definition own_leader_cluster :: Cluster where
  "own_leader_cluster =
     \<lparr>RandLeaderResource = (\<lambda>round cid. Some \<lparr>res_ID = cid, res_Leader = cid\<rparr>),
      PickTarget = (\<lambda>round res. Some 9),
      CreateTransferLeaderOperator = (\<lambda>res src dst.
        Inr \<lparr>op_Desc = ''evict-leader'', op_ResourceID = res_ID res, op_From = src, op_To = dst,
             op_HighPriority = False, op_Counters = []\<rparr>)\<rparr>"

text \<open>A cluster in which every container leads a resource not seen in earlier rounds.\<close>

definition fresh_leader_cluster :: Cluster where
  "fresh_leader_cluster =
     \<lparr>RandLeaderResource = (\<lambda>round cid. Some \<lparr>res_ID = cid + 10 * of_nat round, res_Leader = cid\<rparr>),
      PickTarget = (\<lambda>round res. Some 9),
      CreateTransferLeaderOperator = (\<lambda>res src dst.
        Inr \<lparr>op_Desc = ''evict-leader'', op_ResourceID = res_ID res, op_From = src, op_To = dst,
             op_HighPriority = False, op_Counters = []\<rparr>)\<rparr>"

section \<open>The prophet client\<close>

text \<open>
  Go compares errors by identity. The sentinels are constructors; an error built from the
  text of a response (\<^verbatim>\<open>errors.New(resp.Error)\<close>) is a different value whatever its text.
\<close>

datatype client_error = ErrNotLeader | ErrClosed | ErrTimeout | ErrResponse string

datatype client_state = stateRunning | stateStopped

subsection \<open>Synchronous requests\<close>

text \<open>
  \<^verbatim>\<open>do\<close> and \<^verbatim>\<open>ctx.wait\<close> depend on other goroutines: whether the client has been stopped,
  whether \<^verbatim>\<open>writeC\<close> has room, and with which arguments \<^verbatim>\<open>ctx.done\<close> is first called
  (by the read loop, the timeout wheel or the stop). These are the environment's script.
  Each turn of the loop of \<^verbatim>\<open>do\<close> observes the state and tries a non-blocking send; an
  attempt of \<^verbatim>\<open>syncDo\<close> is the observations of its \<^verbatim>\<open>do\<close> and the completion of its
  context. The request id and the map of contexts do not influence what \<^verbatim>\<open>syncDo\<close>
  returns and are left out. \<open>None\<close> means: not returned within the script.
\<close>

record observation =
  obs_state :: client_state
  obs_writeC_ready :: bool

fun do_loop :: "observation list \<Rightarrow> client_error option option" where
  "do_loop [] = None"
| "do_loop (ob # obs) =
     (if obs_state ob = stateStopped then Some (Some ErrClosed)
      else if obs_writeC_ready ob then Some None
      else do_loop obs)"

record 'rsp attempt =
  att_do :: "observation list"
  att_done :: "'rsp option \<times> client_error option"

text \<open>The result is what \<^verbatim>\<open>syncDo\<close> returns and the milliseconds it has slept.\<close>

fun syncDo :: "'rsp attempt list \<Rightarrow> nat \<Rightarrow> (('rsp option \<times> client_error option) \<times> nat) option" where
  "syncDo [] slept = None"
| "syncDo (a # as) slept =
     (case do_loop (att_do a) of
        None \<Rightarrow> None
      | Some (Some err) \<Rightarrow> Some ((None, Some err), slept)
      | Some None \<Rightarrow>
          (case att_done a of
             (resp, Some err) \<Rightarrow>
               if err = ErrNotLeader then syncDo as (slept + 100)
               else Some ((None, Some err), slept)
           | (resp, None) \<Rightarrow> Some ((resp, None), slept)))"

definition sent :: "'rsp attempt \<Rightarrow> bool" where
  "sent a = (do_loop (att_do a) = Some None)"

definition not_leader :: "'rsp attempt \<Rightarrow> bool" where
  "not_leader a = (sent a \<and> snd (att_done a) = Some ErrNotLeader)"

subsection \<open>Closing\<close>

text \<open>
  Modelled from the spec: \<^verbatim>\<open>stop.Stopper\<close> is not among the sources. Its \<^verbatim>\<open>Stop\<close>
  cancels the context of every task it runs and waits until they have returned, as the
  comment in \<^verbatim>\<open>Close\<close> has it (stop write loop, stop read loop, then close all
  channels). The tasks are the read loop and the write loop that \<^verbatim>\<open>NewClient\<close> starts;
  each is waiting in its \<^verbatim>\<open>select\<close> when it is stopped and runs its stop branch: the
  read loop completes every context with \<^verbatim>\<open>ErrClosed\<close>, the write loop closes the leader
  connection. \<^verbatim>\<open>ctx.done\<close> takes effect once. Closing a closed channel panics.
  \<^verbatim>\<open>sync.Once\<close> runs its function at most once. The leader connection counts the calls
  of its \<^verbatim>\<open>Close\<close>.
\<close>

datatype chan = Open | Closed



record ctx =
  ctx_state :: bool
  ctx_err :: "client_error option"

definition ctx_done :: "client_error option \<Rightarrow> ctx \<Rightarrow> ctx" where
  "ctx_done err x = (if ctx_state x then x else x\<lparr>ctx_state := True, ctx_err := err\<rparr>)"

record asyncClient =
  mu_state :: client_state
  contexts :: "(64 word \<times> ctx) list"
  resourceHeartbeatRspC :: chan
  resetLeaderConnC :: chan
  resetReadC :: chan
  writeC :: chan
  leaderConn_closed :: nat
  readLoop_running :: bool
  writeLoop_running :: bool
  closeOnce_done :: bool


definition readLoop_stop :: "asyncClient \<Rightarrow> asyncClient" where
  "readLoop_stop c =
     c\<lparr>contexts := map (\<lambda>(id, x). (id, ctx_done (Some ErrClosed) x)) (contexts c),
       readLoop_running := False\<rparr>"

definition writeLoop_stop :: "asyncClient \<Rightarrow> asyncClient" where
  "writeLoop_stop c = c\<lparr>leaderConn_closed := leaderConn_closed c + 1, writeLoop_running := False\<rparr>"

definition stopper_Stop :: "asyncClient \<Rightarrow> asyncClient" where
  "stopper_Stop c =
     (let c1 = (if readLoop_running c then readLoop_stop c else c)
      in if writeLoop_running c1 then writeLoop_stop c1 else c1)"





section \<open>The system-time monitor\<close>

text \<open>
  The loop of \<^verbatim>\<open>StartMonitor\<close> samples the clock, then waits in a \<^verbatim>\<open>select\<close> for the
  ticker or for the context. Which of the two the \<^verbatim>\<open>select\<close> takes in each turn is the
  environment's script, and so is the clock: \<open>now k\<close> is what the \<open>k\<close>-th call of
  \<^verbatim>\<open>now().UnixNano()\<close> returns, a signed 64-bit integer. The result is the list of
  turns in which the handler was called, and whether the function has returned; with the
  script used up the loop is waiting in its \<^verbatim>\<open>select\<close>.
\<close>

datatype event = Tick | CtxDone

fun StartMonitor_loop :: "(nat \<Rightarrow> 64 word) \<Rightarrow> event list \<Rightarrow> nat \<Rightarrow> nat \<Rightarrow> nat list \<Rightarrow> nat list \<times> bool" where
  "StartMonitor_loop now [] k i calls = (calls, False)"
| "StartMonitor_loop now (e # es) k i calls =
     (let last = now k in
      case e of
        Tick \<Rightarrow>
          if now (k + 1) <s last then StartMonitor_loop now es (k + 2) (i + 1) (calls @ [i])
          else StartMonitor_loop now es (k + 2) (i + 1) calls
      | CtxDone \<Rightarrow> (calls, True))"

definition StartMonitor :: "(nat \<Rightarrow> 64 word) \<Rightarrow> event list \<Rightarrow> nat list \<times> bool" where
  "StartMonitor now es = StartMonitor_loop now es 0 0 []"

definition ticks :: "event list \<Rightarrow> nat" where
  "ticks es = length (takeWhile (\<lambda>e. e = Tick) es)"

definition jumped_back :: "(nat \<Rightarrow> 64 word) \<Rightarrow> nat \<Rightarrow> bool" where
  "jumped_back now i = (now (2 * i + 1) <s now (2 * i))"

definition steady :: "(nat \<Rightarrow> 64 word) \<Rightarrow> bool" where
  "steady now = (\<forall>k. now k \<le>s now (k + 1))"

definition frozen_clock :: "nat \<Rightarrow> 64 word" where
  "frozen_clock k = 7"

definition jumping_clock :: "nat \<Rightarrow> 64 word" where
  "jumping_clock k = (if k = 3 then 1 else 5)"

definition sending :: "observation list" where
  "sending = [\<lparr>obs_state = stateRunning, obs_writeC_ready = False\<rparr>,
              \<lparr>obs_state = stateRunning, obs_writeC_ready = True\<rparr>]"

definition refused :: "string attempt" where
  "refused = \<lparr>att_do = sending, att_done = (None, Some ErrNotLeader)\<rparr>"

definition answered :: "string attempt" where
  "answered = \<lparr>att_do = sending, att_done = (Some ''id'', None)\<rparr>"

definition timed_out :: "string attempt" where
  "timed_out = \<lparr>att_do = sending, att_done = (None, Some ErrTimeout)\<rparr>"



section \<open>Properties of the in-memory storage\<close>

subsection \<open>The invariant of the tree\<close>

text \<open>Every operation of the tree keeps its keys strictly ascending.\<close>

lemma key_kv_Put: "x \<in> set (map fst (kv_Put k v t)) \<longleftrightarrow> x = k \<or> x \<in> set (map fst t)"
proof (induction t)
  case Nil
  show ?case by simp
next
  case (Cons p t)
  obtain k' v' where p: "p = (k', v')" by (cases p)
  show ?case using Cons.IH by (auto simp: p)
qed

lemma keys_kv_Put: "set (map fst (kv_Put k v t)) = insert k (set (map fst t))"
  using key_kv_Put[of _ k v t] by blast

lemma sorted_kv_Put:
  "sorted_wrt (<) (map fst t) \<Longrightarrow> sorted_wrt (<) (map fst (kv_Put k v t))"
proof (induction t)
  case Nil
  show ?case by simp
next
  case (Cons p t)
  obtain k' v' where p: "p = (k', v')" by (cases p)
  from Cons.prems have s: "sorted_wrt (<) (map fst t)" and lt: "\<forall>x \<in> set (map fst t). k' < x"
    by (auto simp: p)
  show ?case
  proof (cases "k < k'")
    case True
    with Cons.prems lt show ?thesis by (auto simp: p)
  next
    case False
    show ?thesis
    proof (cases "k = k'")
      case True
      with Cons.prems show ?thesis by (simp add: p)
    next
      case ne: False
      with False have "k' < k" by simp
      with lt have "\<forall>x \<in> set (map fst (kv_Put k v t)). k' < x"
        unfolding keys_kv_Put by simp
      with Cons.IH[OF s] False ne show ?thesis by (simp add: p)
    qed
  qed
qed

lemma sorted_kv_filter:
  "sorted_wrt (<) (map fst t) \<Longrightarrow> sorted_wrt (<) (map fst (filter P t))"
  by (induction t) auto

lemma tree_invariant:
  "sorted_wrt (<) (map fst NewKVTree)"
  "sorted_wrt (<) (map fst t) \<Longrightarrow> sorted_wrt (<) (map fst (kv_Put k v t))"
  "sorted_wrt (<) (map fst t) \<Longrightarrow> sorted_wrt (<) (map fst (kv_Delete k t))"
  "sorted_wrt (<) (map fst t) \<Longrightarrow> sorted_wrt (<) (map fst (kv_RangeDelete start end t))"
  by (simp_all add: NewKVTree_def sorted_kv_Put kv_Delete_def kv_RangeDelete_def sorted_kv_filter)

subsection \<open>Statistics counters\<close>

lemma WrittenKeys_addWrittenKeys:
  "WrittenKeys (stats (addWrittenKeys n s)) = WrittenKeys (stats s) + n"
  by (simp add: addWrittenKeys_def)

lemma WrittenKeys_addWrittenBytes:
  "WrittenKeys (stats (addWrittenBytes n s)) = WrittenKeys (stats s)"
  by (simp add: addWrittenBytes_def)

lemma WrittenBytes_addWrittenKeys:
  "WrittenBytes (stats (addWrittenKeys n s)) = WrittenBytes (stats s)"
  by (simp add: addWrittenKeys_def)

lemma WrittenBytes_addWrittenBytes:
  "WrittenBytes (stats (addWrittenBytes n s)) = WrittenBytes (stats s) + n"
  by (simp add: addWrittenBytes_def)

lemmas stats_add = WrittenKeys_addWrittenKeys WrittenKeys_addWrittenBytes
  WrittenBytes_addWrittenKeys WrittenBytes_addWrittenBytes

lemma SetWithTTL_stats:
  "stats (snd (SetWithTTL now key val ttl s)) =
     \<lparr>WrittenKeys = WrittenKeys (stats s) + 1,
      WrittenBytes = WrittenBytes (stats s) + of_nat (length val + length key)\<rparr>"
  by (simp add: SetWithTTL_def Let_def addWrittenKeys_def addWrittenBytes_def)

lemma Set_stats:
  "stats (snd (Set now key val s)) =
     \<lparr>WrittenKeys = WrittenKeys (stats s) + 2,
      WrittenBytes = WrittenBytes (stats s) + 2 * of_nat (length key + length val)\<rparr>"
  by (simp add: Set_def Let_def SetWithTTL_stats stats_add add.commute)

lemma BatchSet_step_keys:
  "WrittenKeys (stats (BatchSet_step now pairs i s)) = WrittenKeys (stats s) + 2"
  by (simp add: BatchSet_step_def Let_def stats_add Set_stats)

lemma BatchSet_fold_keys:
  "WrittenKeys (stats (fold (BatchSet_step now pairs) is s)) =
     WrittenKeys (stats s) + 2 * of_nat (length is)"
  by (induction "is" arbitrary: s) (simp_all add: BatchSet_step_keys algebra_simps)

text \<open>
  C9. \<^verbatim>\<open>Set\<close> returns nil and adds 2 to \<^verbatim>\<open>WrittenKeys\<close> and twice
  \<open>len(key) + len(value)\<close> to \<^verbatim>\<open>WrittenBytes\<close> (unsigned 64-bit counters): it counts the
  write and so does \<^verbatim>\<open>SetWithTTL\<close>, to which it delegates. \<^verbatim>\<open>BatchSet\<close> called with \<open>n\<close>
  pairs (\<open>2n\<close> arguments) returns nil and adds \<open>3n\<close> to \<^verbatim>\<open>WrittenKeys\<close>.
\<close>

theorem Set_counts_twice:
  "fst (Set now key val s) = None
   \<and> WrittenKeys (stats (snd (Set now key val s))) = WrittenKeys (stats s) + 2
   \<and> WrittenBytes (stats (snd (Set now key val s))) =
       WrittenBytes (stats s) + 2 * of_nat (length key + length val)
   \<and> (length pairs = 2 * n \<longrightarrow>
        fst (BatchSet now pairs s) = None \<and>
        WrittenKeys (stats (snd (BatchSet now pairs s))) = WrittenKeys (stats s) + 3 * of_nat n)"
  by (simp add: Set_stats BatchSet_def Let_def BatchSet_fold_keys stats_add)
     (simp add: Set_def SetWithTTL_def Let_def)

theorem Set_counts_twice_witness:
  "length [[1], [7], [2], [8 :: byte]] = 2 * 2
   \<and> fst (BatchSet 0 [[1], [7], [2], [8]] (NewStorage emptyFS)) = None
   \<and> WrittenKeys (stats (snd (BatchSet 0 [[1], [7], [2], [8]] (NewStorage emptyFS)))) = 6
   \<and> WrittenKeys (stats (snd (Set 0 [1] [7] (NewStorage emptyFS)))) = 2
   \<and> WrittenBytes (stats (snd (Set 0 [1] [7] (NewStorage emptyFS)))) = 4"
  using Set_counts_twice [of 0 "[1]" "[7]" "NewStorage emptyFS" "[[1], [7], [2], [8]]" 2]
  by (simp add: NewStorage_def)

text \<open>
  C5. \<^verbatim>\<open>RangeDelete(start, end)\<close> returns nil, adds 2 to \<^verbatim>\<open>WrittenKeys\<close> and
  \<open>len(start) + len(end)\<close> to \<^verbatim>\<open>WrittenBytes\<close> whatever the tree holds, and the tree
  afterwards holds exactly the former pairs whose key is outside \<open>[start, end)\<close>.
\<close>

theorem RangeDelete_accounting:
  "fst (RangeDelete start end s) = None
   \<and> WrittenKeys (stats (snd (RangeDelete start end s))) = WrittenKeys (stats s) + 2
   \<and> WrittenBytes (stats (snd (RangeDelete start end s))) =
       WrittenBytes (stats s) + of_nat (length start + length end)
   \<and> (\<forall>k v. (k, v) \<in> set (kv (snd (RangeDelete start end s))) \<longleftrightarrow>
             (k, v) \<in> set (kv s) \<and> \<not> (start \<le> k \<and> k < end))"
  by (auto simp: RangeDelete_def Let_def addWrittenKeys_def addWrittenBytes_def
        kv_RangeDelete_def in_range_def)

subsection \<open>Value encoding\<close>

lemma cover8:
  "(n::nat) < 64 \<Longrightarrow> 56 \<le> n \<or> 48 \<le> n \<and> n < 56 \<or> 40 \<le> n \<and> n < 48 \<or>
     32 \<le> n \<and> n < 40 \<or> 24 \<le> n \<and> n < 32 \<or> 16 \<le> n \<and> n < 24 \<or> 8 \<le> n \<and> n < 16 \<or> n < 8"
  by linarith

lemma be64_bit:
  assumes n: "n < 64"
  shows "bit (foldl (\<lambda>acc b. push_bit 8 acc OR ucast b) (0 :: 64 word) (Int64ToBytes e)) n = bit e n"
proof -
  have lt: "n - k < 64" for k using n by simp
  have eq: "bit (foldl (\<lambda>acc b. push_bit 8 acc OR ucast b) (0 :: 64 word) (Int64ToBytes e)) n =
     (56 \<le> n \<and> bit e n \<or>
          48 \<le> n \<and> n < 56 \<and> bit e n \<or>
          40 \<le> n \<and> n < 48 \<and> bit e n \<or>
          32 \<le> n \<and> n < 40 \<and> bit e n \<or>
          24 \<le> n \<and> n < 32 \<and> bit e n \<or>
          16 \<le> n \<and> n < 24 \<and> bit e n \<or>
          8 \<le> n \<and> n < 16 \<and> bit e n \<or>
          n < 8 \<and> bit e n)"
    using n unfolding Int64ToBytes_def
    by (simp add: bit_simps lt less_diff_conv2 cong: conj_cong)
  show ?thesis unfolding eq using cover8[OF n] by blast
qed

lemma be64_roundtrip:
  "foldl (\<lambda>acc b. push_bit 8 acc OR ucast b) (0 :: 64 word) (Int64ToBytes e) = e"
  by (rule bit_word_eqI) (simp add: be64_bit)

lemma length_Int64ToBytes: "length (Int64ToBytes e) = 8"
  by (simp add: Int64ToBytes_def)

lemma Byte2Int64_Int64ToBytes: "Byte2Int64 (Int64ToBytes e @ v) = Inr e"
  using be64_roundtrip[of e] by (simp add: Byte2Int64_def length_Int64ToBytes)

lemma decodeValue_encodeValue:
  "decodeValue now (encodeValue v e) = (if e \<noteq> 0 \<and> e <s now then Inr [] else Inr v)"
  using length_Int64ToBytes[of e]
  by (simp add: decodeValue_def encodeValue_def Byte2Int64_Int64ToBytes length_Int64ToBytes
        del: One_nat_def)

lemma map_of_kv_Put_same: "map_of (kv_Put k v t) k = Some v"
  by (induction t) auto

lemma kv_Get_Put_same: "kv_Get k (kv_Put k v t) = v"
  by (simp add: kv_Get_def map_of_kv_Put_same)

text \<open>
  C8. After \<^verbatim>\<open>Set(key, value)\<close>, \<^verbatim>\<open>Get(key)\<close> returns exactly \<open>value\<close>, for every key
  and value, the empty value included, and at whatever time the read happens: the value is
  stored with expire-at 0, which never expires, and decoding strips the 8 bytes that
  encoding put in front.
\<close>

theorem Set_then_Get:
  "Get now' key (snd (Set now key val s)) = Inr val
   \<and> kv_Get key (kv (snd (Set now key val s))) = encodeValue val 0
   \<and> length (encodeValue val 0) = length val + 8
   \<and> drop 8 (encodeValue val 0) = val"
  by (simp add: Get_def Set_def SetWithTTL_def Let_def addWrittenKeys_def addWrittenBytes_def
        kv_Get_Put_same decodeValue_encodeValue)
     (simp add: encodeValue_def length_Int64ToBytes)

subsection \<open>Scans\<close>


lemma kv_two_rows: "kv two_rows = [([1], encodeValue [9] 0), ([2], encodeValue [9] 0)]"
  by (simp add: two_rows_def Set_def SetWithTTL_def Let_def addWrittenKeys_def addWrittenBytes_def
      NewStorage_def NewKVTree_def)

lemma row_of_cases:
  "row_of now (k, raw) = [] \<or> (\<exists>v. v \<noteq> [] \<and> decodeValue now raw = Inr v \<and> row_of now (k, raw) = [(k, v)])"
  by (auto simp: row_of_def split: sum.splits)

lemma row_of_nonempty: "(k, v) \<in> set (row_of now kr) \<Longrightarrow> v \<noteq> []"
  by (auto simp: row_of_def split: sum.splits if_splits)

lemma nonempty_from_nonempty: "(k, v) \<in> set (nonempty_from clock n rows) \<Longrightarrow> v \<noteq> []"
  by (induction rows arbitrary: n) (auto dest: row_of_nonempty)

lemma prefix_until_stop: "prefix (until_stop h rows st) rows"
  by (induction h rows st rule: until_stop.induct) (auto split: prod.splits)

lemma until_stop_never_stops: "never_stops h \<Longrightarrow> until_stop h rows st = rows"
proof (induction rows arbitrary: st)
  case Nil
  show ?case by simp
next
  case (Cons x rows)
  obtain k v where x: "x = (k, v)" by (cases x)
  obtain st' c err where r: "h k v st = (st', c, err)" by (cases "h k v st")
  from Cons.prems have "fst (snd (h k v st)) \<and> snd (snd (h k v st)) = None"
    unfolding never_stops_def by blast
  with r have "c" "err = None" by simp_all
  with r Cons.IH[OF Cons.prems, of st'] show ?case by (simp add: x)
qed

lemma decodeValue_ok: "length raw = 0 \<or> 8 \<le> length raw \<Longrightarrow> \<exists>v. decodeValue now raw = Inr v"
  by (auto simp: decodeValue_def Byte2Int64_def)

text \<open>One step of the closure on a row, by the way the row decodes.\<close>

lemma callback_panic:
  "decodeValue (clock n) raw = Inl e \<Longrightarrow>
   Scan_callback clock (recording h) k raw (n, calls, st) = ((Suc n, calls, st), False, Some e)"
  by (simp add: Scan_callback_def)

lemma callback_skip:
  "decodeValue (clock n) raw = Inr [] \<Longrightarrow>
   Scan_callback clock (recording h) k raw (n, calls, st) = ((Suc n, calls, st), True, None)"
  by (simp add: Scan_callback_def)

lemma callback_deliver:
  "decodeValue (clock n) raw = Inr v \<Longrightarrow> v \<noteq> [] \<Longrightarrow> h k v st = (st', c, err) \<Longrightarrow>
   Scan_callback clock (recording h) k raw (n, calls, st) = ((Suc n, calls @ [(k, v)], st'), c, err)"
  by (simp add: Scan_callback_def recording_def)

lemma visit_exact:
  "list_all (\<lambda>(k, raw). length raw = 0 \<or> 8 \<le> length raw) xs \<Longrightarrow>
   logged (kv_visit xs (Scan_callback clock (recording h)) (n, calls, st)) =
     calls @ until_stop h (nonempty_from clock n xs) st"
proof (induction xs arbitrary: n calls st)
  case Nil
  show ?case by (simp add: logged_def)
next
  case (Cons x xs)
  obtain k raw where x: "x = (k, raw)" by (cases x)
  from Cons.prems have ok: "length raw = 0 \<or> 8 \<le> length raw"
    and rest: "list_all (\<lambda>(k, raw). length raw = 0 \<or> 8 \<le> length raw) xs"
    by (simp_all add: x)
  from decodeValue_ok[OF ok, of "clock n"] obtain v where v: "decodeValue (clock n) raw = Inr v"
    by blast
  show ?case
  proof (cases "v = []")
    case True
    with v have r: "row_of (clock n) (k, raw) = []" by (simp add: row_of_def)
    from v True have "decodeValue (clock n) raw = Inr []" by simp
    note s = callback_skip[of clock n raw h k calls st, OF this]
    show ?thesis using Cons.IH[OF rest, of "Suc n" calls st] by (simp add: x s r)
  next
    case False
    with v have r: "row_of (clock n) (k, raw) = [(k, v)]" by (simp add: row_of_def)
    obtain st' c err where hr: "h k v st = (st', c, err)" by (cases "h k v st")
    note s = callback_deliver[of clock n raw v h k st st' c err calls, OF v False hr]
    show ?thesis
    proof (cases "err \<noteq> None \<or> \<not> c")
      case True
      then show ?thesis using hr by (auto simp: x s r logged_def)
    next
      case go: False
      then show ?thesis
        using hr Cons.IH[OF rest, of "Suc n" "calls @ [(k, v)]" st'] by (simp add: x s r)
    qed
  qed
qed

lemma visit_prefix:
  "\<exists>ds. logged (kv_visit xs (Scan_callback clock (recording h)) (n, calls, st)) = calls @ ds
        \<and> prefix ds (nonempty_from clock n xs)"
proof (induction xs arbitrary: n calls st)
  case Nil
  show ?case by (simp add: logged_def)
next
  case (Cons x xs)
  obtain k raw where x: "x = (k, raw)" by (cases x)
  show ?case
  proof (cases "decodeValue (clock n) raw")
    case (Inl e)
    note s = callback_panic[of clock n raw e h k calls st, OF Inl]
    show ?thesis by (simp add: x s logged_def)
  next
    case (Inr v)
    show ?thesis
    proof (cases "v = []")
      case True
      with Inr have r: "row_of (clock n) (k, raw) = []" by (simp add: row_of_def)
      from Inr True have "decodeValue (clock n) raw = Inr []" by simp
      note s = callback_skip[of clock n raw h k calls st, OF this]
      show ?thesis using Cons.IH[of "Suc n" calls st] by (simp add: x s r)
    next
      case False
      with Inr have r: "row_of (clock n) (k, raw) = [(k, v)]" by (simp add: row_of_def)
      obtain st' c err where hr: "h k v st = (st', c, err)" by (cases "h k v st")
      note s = callback_deliver[of clock n raw v h k st st' c err calls, OF Inr False hr]
      show ?thesis
      proof (cases "err \<noteq> None \<or> \<not> c")
        case True
        have "logged (kv_visit (x # xs) (Scan_callback clock (recording h)) (n, calls, st)) = calls @ [(k, v)]"
          using True by (auto simp: x s logged_def)
        then show ?thesis by (intro exI[of _ "[(k, v)]"]) (simp add: x r)
      next
        case go: False
        from Cons.IH[of "Suc n" "calls @ [(k, v)]" st'] obtain ds where
          ds: "logged (kv_visit xs (Scan_callback clock (recording h)) (Suc n, calls @ [(k, v)], st')) = (calls @ [(k, v)]) @ ds"
              "prefix ds (nonempty_from clock (Suc n) xs)" by blast
        have "logged (kv_visit (x # xs) (Scan_callback clock (recording h)) (n, calls, st)) = calls @ (k, v) # ds"
          using go ds(1) by (simp add: x s)
        then show ?thesis using ds(2) by (intro exI[of _ "(k, v) # ds"]) (simp add: x r)
      qed
    qed
  qed
qed

lemma delivered_logged:
  "delivered clock start end h s st =
     logged (kv_visit (filter (\<lambda>(k, v). in_range start end k) (kv s))
               (Scan_callback clock (recording h)) (0, [], st))"
  by (simp add: delivered_def Scan_def kv_Scan_def logged_def split: prod.splits)

text \<open>
  C4, as stated, fails when the handler ends the scan: with two rows in the range whose
  values are not empty and a handler that returns false, the first row is delivered and
  the second never is.
\<close>

theorem Scan_stopped_counterexample:
  "in_range [0] [3] [2]
   \<and> ([2], encodeValue [9] 0) \<in> set (kv two_rows)
   \<and> decodeValue 0 (encodeValue [9] 0) = Inr [9]
   \<and> delivered (clock_at 0) [0] [3] stop_at_first two_rows () = [([1], [9])]"
  by (simp add: delivered_def Scan_def kv_Scan_def kv_two_rows in_range_def
      Scan_callback_def decodeValue_encodeValue recording_def stop_at_first_def clock_at_def)

text \<open>
  C4, amended. Let \<open>clock n\<close> be the time at which the scan decodes its \<open>n\<close>-th row.
  The rows that reach the handler are the rows of \<open>[start, end)\<close> whose value, decoded at
  that time, is not empty, in key order and each with its decoded value, up to and
  including the first row on which the handler returns false or an error: exactly these
  when no stored value is too short to decode, and in any case a prefix of the rows that
  are not empty. When moreover the handler never ends the scan they are all of the rows
  that are not empty. No row with an empty decoded value is ever delivered. A row written
  as \<open>value\<close> with expire-at \<open>e\<close> is not empty at time \<open>now\<close> unless \<open>value\<close> is empty
  or \<open>e \<noteq> 0\<close> lies before \<open>now\<close>: an empty explicit value and an expired row are both
  dropped.
\<close>

theorem Scan_delivers_nonempty_rows:
  "prefix (delivered clock start end h s st) (nonempty_rows clock start end (kv s))
   \<and> (\<forall>(k, v) \<in> set (delivered clock start end h s st). v \<noteq> [])
   \<and> (decodable (kv s) \<longrightarrow>
        delivered clock start end h s st =
          until_stop h (nonempty_rows clock start end (kv s)) st)
   \<and> (never_stops h \<and> decodable (kv s) \<longrightarrow>
        delivered clock start end h s st = nonempty_rows clock start end (kv s))
   \<and> row_of now (key, encodeValue val e) =
        (if val = [] \<or> (e \<noteq> 0 \<and> e <s now) then [] else [(key, val)])"
proof -
  let ?xs = "filter (\<lambda>(k, v). in_range start end k) (kv s)"
  from visit_prefix[of ?xs clock h 0 "[]" st]
  have p: "prefix (delivered clock start end h s st) (nonempty_rows clock start end (kv s))"
    by (auto simp: delivered_logged nonempty_rows_def)
  from p have "set (delivered clock start end h s st) \<subseteq> set (nonempty_rows clock start end (kv s))"
    by (rule set_mono_prefix)
  then have q: "\<forall>(k, v) \<in> set (delivered clock start end h s st). v \<noteq> []"
    by (auto simp: nonempty_rows_def dest: nonempty_from_nonempty)
  have x: "delivered clock start end h s st = until_stop h (nonempty_rows clock start end (kv s)) st"
    if "decodable (kv s)"
  proof -
    from that have "list_all (\<lambda>(k, raw). length raw = 0 \<or> 8 \<le> length raw) ?xs"
      by (auto simp: decodable_def list_all_iff)
    from visit_exact[OF this, of clock h 0 "[]" st] show ?thesis
      by (simp add: delivered_logged nonempty_rows_def)
  qed
  have e: "row_of now (key, encodeValue val e) =
        (if val = [] \<or> (e \<noteq> 0 \<and> e <s now) then [] else [(key, val)])"
    by (simp add: row_of_def decodeValue_encodeValue)
  from p q x e show ?thesis by (simp add: until_stop_never_stops)
qed

lemma kv_three_rows:
  "kv three_rows = [([1], encodeValue [7] 0), ([2], encodeValue [8] 10), ([3], encodeValue [9] 0)]"
  by (simp add: three_rows_def Set_def SetWithTTL_def Let_def addWrittenKeys_def
      addWrittenBytes_def NewStorage_def NewKVTree_def word_sless_alt)

theorem Scan_delivers_nonempty_rows_witness:
  "decodable (kv two_rows)
   \<and> never_stops keep_going
   \<and> nonempty_rows (clock_at 0) [0] [3] (kv two_rows) = [([1], [9]), ([2], [9])]
   \<and> delivered (clock_at 0) [0] [3] keep_going two_rows () = [([1], [9]), ([2], [9])]
   \<and> delivered (clock_at 0) [0] [3] stop_at_first two_rows () = [([1], [9])]
   \<and> decodable (kv three_rows)
   \<and> delivered (clock_at 10) [0] [4] keep_going three_rows () = [([1], [7]), ([2], [8]), ([3], [9])]
   \<and> delivered ticking_clock [0] [4] keep_going three_rows () = [([1], [7]), ([3], [9])]"
proof -
  have b3: "decodable (kv three_rows)"
    by (simp add: decodable_def kv_three_rows encodeValue_def length_Int64ToBytes)
  have c3: "nonempty_rows (clock_at 10) [0] [4] (kv three_rows) = [([1], [7]), ([2], [8]), ([3], [9])]"
    by (simp add: nonempty_rows_def kv_three_rows in_range_def row_of_def decodeValue_encodeValue
        clock_at_def word_sless_alt)
  have d3: "nonempty_rows ticking_clock [0] [4] (kv three_rows) = [([1], [7]), ([3], [9])]"
    by (simp add: nonempty_rows_def kv_three_rows in_range_def row_of_def decodeValue_encodeValue
        ticking_clock_def word_sless_alt)
  have a: "never_stops keep_going"
    by (simp add: never_stops_def keep_going_def)
  have b: "decodable (kv two_rows)"
    by (simp add: decodable_def kv_two_rows encodeValue_def length_Int64ToBytes)
  have c: "nonempty_rows (clock_at 0) [0] [3] (kv two_rows) = [([1], [9]), ([2], [9])]"
    by (simp add: nonempty_rows_def kv_two_rows in_range_def row_of_def decodeValue_encodeValue
        clock_at_def)
  from Scan_delivers_nonempty_rows[of "clock_at 0" "[0]" "[3]" keep_going two_rows "()"]
    Scan_delivers_nonempty_rows[of "clock_at 0" "[0]" "[3]" stop_at_first two_rows "()"] a b c
  have two: "delivered (clock_at 0) [0] [3] keep_going two_rows () = [([1], [9]), ([2], [9])]"
    "delivered (clock_at 0) [0] [3] stop_at_first two_rows () = [([1], [9])]"
    by (simp_all add: stop_at_first_def keep_going_def)
  from Scan_delivers_nonempty_rows[of "clock_at 10" "[0]" "[4]" keep_going three_rows "()"]
    Scan_delivers_nonempty_rows[of ticking_clock "[0]" "[4]" keep_going three_rows "()"] a b3 c3 d3
  have three: "delivered (clock_at 10) [0] [4] keep_going three_rows () = [([1], [7]), ([2], [8]), ([3], [9])]"
    "delivered ticking_clock [0] [4] keep_going three_rows () = [([1], [7]), ([3], [9])]"
    by (simp_all add: keep_going_def)
  from a b c b3 two three show ?thesis by simp
qed

subsection \<open>Snapshots\<close>


lemma cover4:
  "(n::nat) < 32 \<Longrightarrow> 24 \<le> n \<or> 16 \<le> n \<and> n < 24 \<or> 8 \<le> n \<and> n < 16 \<or> n < 8"
  by linarith

lemma be32_bit:
  assumes n: "n < 32"
  shows "bit (foldl (\<lambda>acc b. push_bit 8 acc OR ucast b) (0 :: 32 word) (PutUint32 e)) n = bit e n"
proof -
  have lt: "n - k < 32" for k using n by simp
  have eq: "bit (foldl (\<lambda>acc b. push_bit 8 acc OR ucast b) (0 :: 32 word) (PutUint32 e)) n =
     (24 \<le> n \<and> bit e n \<or>
          16 \<le> n \<and> n < 24 \<and> bit e n \<or>
          8 \<le> n \<and> n < 16 \<and> bit e n \<or>
          n < 8 \<and> bit e n)"
    using n unfolding PutUint32_def
    by (simp add: bit_simps lt less_diff_conv2 cong: conj_cong)
  show ?thesis unfolding eq using cover4[OF n] by blast
qed

lemma length_PutUint32: "length (PutUint32 e) = 4"
  by (simp add: PutUint32_def)

lemma Uint32_PutUint32: "Uint32 (PutUint32 e @ rest) = e"
proof -
  have "foldl (\<lambda>acc b. push_bit 8 acc OR ucast b) (0 :: 32 word) (PutUint32 e) = e"
    by (rule bit_word_eqI) (simp add: be32_bit)
  then show ?thesis by (simp add: Uint32_def length_PutUint32)
qed

lemma writeBytes_frame: "writes_ok fsys \<Longrightarrow> writeBytes fsys f d = (None, f @ frame d)"
  by (simp add: writes_ok_def writeBytes_def file_Write_def frame_def)

lemma PutUint32_not_Nil: "PutUint32 e \<noteq> []"
  using length_PutUint32[of e] by auto

lemma file_Read_ok:
  "reads_ok fsys \<Longrightarrow>
   file_Read fsys f n = (if f = [] then ([], Some EOF, f) else (take n f, None, drop n f))"
  by (simp add: reads_ok_def file_Read_def)

lemma readBytes_loop_exact:
  "reads_ok fsys \<Longrightarrow> readBytes_loop fsys (d @ rest) (length d) [] = Some (Inr d, rest)"
  by (subst readBytes_loop.simps) (simp add: file_Read_ok failed_read_def)

lemma readBytes_frame:
  assumes "reads_ok fsys" "length d < 2 ^ 32"
  shows "readBytes fsys (frame d @ rest) = Some (Inr d, rest)"
proof -
  have u: "unat (of_nat (length d) :: 32 word) = length d"
    using assms(2) by (simp add: unat_of_nat take_bit_nat_eq_self)
  have r: "file_Read fsys (frame d @ rest) 4 = (PutUint32 (of_nat (length d)), None, d @ rest)"
    by (simp add: file_Read_ok[OF assms(1)] frame_def PutUint32_not_Nil length_PutUint32)
  show ?thesis
    unfolding readBytes_def r
    using Uint32_PutUint32[of "of_nat (length d)" "[]"]
    by (simp add: length_PutUint32 u readBytes_loop_exact[OF assms(1)] PutUint32_not_Nil)
qed

lemma readBytes_eof: "reads_ok fsys \<Longrightarrow> readBytes fsys [] = Some (Inr [], [])"
  by (simp add: readBytes_def file_Read_ok)

lemma visit_snapshot:
  "writes_ok fsys \<Longrightarrow>
   kv_visit xs (snapshot_callback fsys) f = (f @ concat (map frame2 xs), None)"
  by (induction xs arbitrary: f)
     (auto simp: snapshot_callback_def writeBytes_frame frame2_def)

lemma fs_ApplySnapshot_put: "fs (ApplySnapshot_put k v s) = fs s"
  by (simp add: ApplySnapshot_put_def Let_def addWrittenKeys_def addWrittenBytes_def)

lemma ApplySnapshot_loop_frames:
  "reads_ok (fs s) \<Longrightarrow> list_all framable xs \<Longrightarrow>
   ApplySnapshot_loop (concat (map frame2 xs)) s = Some (None, fold (\<lambda>(k, v). ApplySnapshot_put k v) xs s)"
proof (induction xs arbitrary: s)
  case Nil
  show ?case by (subst ApplySnapshot_loop.simps) (simp add: readBytes_eof[OF Nil.prems(1)])
next
  case (Cons x xs)
  obtain k v where x: "x = (k, v)" by (cases x)
  from Cons.prems have kvs: "k \<noteq> []" "length k < 2 ^ 32" "v \<noteq> []" "length v < 2 ^ 32"
    by (simp_all add: x framable_def)
  from Cons.prems have rest: "list_all framable xs" by simp
  have f: "concat (map frame2 (x # xs)) = frame k @ (frame v @ concat (map frame2 xs))"
    by (simp add: x frame2_def)
  note rk = readBytes_frame[OF Cons.prems(1) kvs(2)] and rv = readBytes_frame[OF Cons.prems(1) kvs(4)]
  have ok: "reads_ok (fs (ApplySnapshot_put k v s))"
    using Cons.prems(1) by (simp add: fs_ApplySnapshot_put)
  show ?case
    unfolding f
    by (subst ApplySnapshot_loop.simps)
       (simp add: rk rv kvs(1,3) Cons.IH[OF ok rest] x)
qed

lemma kv_fold_ApplySnapshot_put:
  "kv (fold (\<lambda>(k, v). ApplySnapshot_put k v) xs s) = fold (\<lambda>(k, v). kv_Put k v) xs (kv s)"
  by (induction xs arbitrary: s)
     (simp_all add: ApplySnapshot_put_def Let_def addWrittenKeys_def addWrittenBytes_def case_prod_unfold)

lemma kv_Put_append:
  "\<forall>k' \<in> fst ` set t. k' < k \<Longrightarrow> kv_Put k v t = t @ [(k, v)]"
  by (induction t) (auto simp: less_le_not_le)

lemma fold_kv_Put_sorted:
  "sorted_wrt (<) (map fst (t @ xs)) \<Longrightarrow> fold (\<lambda>(k, v). kv_Put k v) xs t = t @ xs"
proof (induction xs arbitrary: t)
  case Nil
  then show ?case by simp
next
  case (Cons x xs)
  obtain k v where x: "x = (k, v)" by (cases x)
  from Cons.prems have "\<forall>k' \<in> fst ` set t. k' < k"
    by (auto simp: x sorted_wrt_append)
  then have p: "kv_Put k v t = t @ [(k, v)]" by (rule kv_Put_append)
  from Cons.prems have "sorted_wrt (<) (map fst ((t @ [(k, v)]) @ xs))" by (simp add: x)
  from Cons.IH[OF this] show ?case by (simp add: x p)
qed

lemma CreateSnapshot_file:
  "MkdirAll_err (fs s) path = None \<Longrightarrow> Create_err (fs s) (PathJoin path ''db.data'') = None \<Longrightarrow>
   writes_ok (fs s) \<Longrightarrow>
   CreateSnapshot path start end s =
     (None, put_file (PathJoin path ''db.data'')
        (frame start @ frame end @
         concat (map frame2 (filter (\<lambda>(k, v). in_range start end k) (kv s)))) s)"
  by (simp add: CreateSnapshot_def Let_def writeBytes_frame kv_Scan_def visit_snapshot)

text \<open>\<^verbatim>\<open>CreateSnapshot\<close> returns the error of \<^verbatim>\<open>MkdirAll\<close>, of \<^verbatim>\<open>Create\<close> and of a failed write.\<close>

lemma CreateSnapshot_errors:
  "MkdirAll_err (fs s) path = Some e \<Longrightarrow> CreateSnapshot path start end s = (Some e, s)"
  "MkdirAll_err (fs s) path = None \<Longrightarrow> Create_err (fs s) (PathJoin path ''db.data'') = Some e \<Longrightarrow>
     CreateSnapshot path start end s = (Some e, s)"
  "MkdirAll_err (fs s) path = None \<Longrightarrow> Create_err (fs s) (PathJoin path ''db.data'') = None \<Longrightarrow>
     Write_err (fs s) [] (PutUint32 (of_nat (length start))) = Some (e, n) \<Longrightarrow>
     fst (CreateSnapshot path start end s) = Some e"
  by (simp_all add: CreateSnapshot_def Let_def writeBytes_def file_Write_def)

lemma CreateSnapshot_not_a_directory:
  "fst (CreateSnapshot ''f/snap'' [1] [3] (NewStorage file_in_the_way)) = Some (ErrIO ''not a directory'')"
  by (simp add: CreateSnapshot_def NewStorage_def file_in_the_way_def)

lemma in_range_empty_end: "\<not> in_range start [] k"
  by (simp add: in_range_def)

lemma in_range_not_Nil: "in_range start end k \<Longrightarrow> start \<noteq> [] \<Longrightarrow> k \<noteq> []"
  by (auto simp: in_range_def)

lemma fs_two_rows: "fs two_rows = emptyFS"
  by (simp add: two_rows_def Set_def SetWithTTL_def Let_def addWrittenKeys_def addWrittenBytes_def
      NewStorage_def)

lemma fs_ok_emptyFS: "fs_ok path emptyFS"
  by (simp add: fs_ok_def writes_ok_def reads_ok_def emptyFS_def)

text \<open>
  C1, as stated, fails when the start key is empty: every key is in \<open>[[], end)\<close>, no
  operation of the file system fails, \<^verbatim>\<open>CreateSnapshot\<close> succeeds, and \<^verbatim>\<open>ApplySnapshot\<close>
  rejects the file with "missing start field" and leaves the empty storage empty, while
  the original storage enumerates two rows.
\<close>

theorem snapshot_empty_start_counterexample:
  "all_in_range [] [3] (kv two_rows)
   \<and> fs_ok ''snap'' (fs two_rows)
   \<and> fst (CreateSnapshot ''snap'' [] [3] two_rows) = None
   \<and> map_option fst (ApplySnapshot ''snap'' (snapshot_of ''snap'' [] [3] two_rows)) = Some (Some ErrMissingStart)
   \<and> map_option (kv \<circ> snd) (ApplySnapshot ''snap'' (snapshot_of ''snap'' [] [3] two_rows)) = Some []
   \<and> delivered (clock_at 0) [] [3] keep_going two_rows () = [([1], [9]), ([2], [9])]"
proof -
  have ok: "fs_ok ''snap'' (fs two_rows)" by (simp add: fs_two_rows fs_ok_emptyFS)
  then have m: "MkdirAll_err (fs two_rows) ''snap'' = None"
    and c: "Create_err (fs two_rows) (PathJoin ''snap'' ''db.data'') = None"
    and op: "Open_err (fs two_rows) (PathJoin ''snap'' ''db.data'') = None"
    and w: "writes_ok (fs two_rows)" and rd: "reads_ok (fs two_rows)"
    by (simp_all add: fs_ok_def)
  have rd': "reads_ok ((fs two_rows)\<lparr>files := m\<rparr>)" for m
    using rd by (simp add: reads_ok_def)
  have r: "readBytes ((fs two_rows)\<lparr>files := m\<rparr>) (frame [] @ rest) = Some (Inr [], rest)" for m rest
    by (rule readBytes_frame[OF rd']) simp
  have a: "ApplySnapshot ''snap'' (snapshot_of ''snap'' [] [3] two_rows) =
      Some (Some ErrMissingStart, snapshot_of ''snap'' [] [3] two_rows)"
    by (simp add: snapshot_of_def CreateSnapshot_file[OF m c w] ApplySnapshot_def NewStorage_def
        put_file_def Let_def op r)
  have k: "kv (snapshot_of ''snap'' [] [3] two_rows) = []"
    by (simp add: snapshot_of_def NewStorage_def NewKVTree_def)
  have d: "delivered (clock_at 0) [] [3] keep_going two_rows () = [([1], [9]), ([2], [9])]"
    by (simp add: delivered_def Scan_def kv_Scan_def kv_two_rows in_range_def
      Scan_callback_def decodeValue_encodeValue recording_def keep_going_def clock_at_def)
  have i: "all_in_range [] [3] (kv two_rows)"
    by (simp add: all_in_range_def kv_two_rows in_range_def)
  from ok a k d i show ?thesis by (simp add: CreateSnapshot_file[OF m c w])
qed

text \<open>
  C1, amended. For a storage whose pairs all lie in \<open>[start, end)\<close>, with \<open>start\<close> not
  empty and every key, stored value and bound shorter than \<open>2^32\<close> bytes, on a file
  system where making the directory, creating and opening the file, and every write and
  read succeed: \<^verbatim>\<open>CreateSnapshot(path, start, end)\<close> returns nil and
  \<^verbatim>\<open>ApplySnapshot(path)\<close> on an empty storage over the same file system returns (with
  nil unless \<open>end\<close> is empty, in which case the range and both storages are empty) and
  leaves a tree equal to the original tree: every scan of the restored storage behaves as
  the same scan of the original.
\<close>

theorem snapshot_roundtrip:
  assumes "snapshot_ready start end (kv s)" and "fs_ok path (fs s)"
  shows "fst (CreateSnapshot path start end s) = None
    \<and> (\<exists>r s'. ApplySnapshot path (NewStorage (fs (snd (CreateSnapshot path start end s)))) = Some (r, s')
          \<and> (end \<noteq> [] \<longrightarrow> r = None)
          \<and> kv s' = kv s
          \<and> (\<forall>clock a b h p st. Scan clock a b h p s' st = Scan clock a b h p s st))"
proof -
  let ?xs = "kv s"
  let ?name = "PathJoin path ''db.data''"
  from assms(1) have sorted: "sorted_wrt (<) (map fst ?xs)"
    and inr: "list_all (\<lambda>(k, v). in_range start end k) ?xs"
    and st: "start \<noteq> []" "length start < 2 ^ 32"
    and en: "length end < 2 ^ 32"
    and short: "list_all (\<lambda>(k, v). length k < 2 ^ 32 \<and> v \<noteq> [] \<and> length v < 2 ^ 32) ?xs"
    by (simp_all add: snapshot_ready_def all_in_range_def)
  from assms(2) have m: "MkdirAll_err (fs s) path = None"
    and cr: "Create_err (fs s) ?name = None"
    and op: "Open_err (fs s) ?name = None"
    and w: "writes_ok (fs s)" and rd: "reads_ok (fs s)"
    by (simp_all add: fs_ok_def)
  from inr have all: "filter (\<lambda>(k, v). in_range start end k) ?xs = ?xs"
    by (simp add: list_all_iff)
  let ?file = "frame start @ (frame end @ concat (map frame2 ?xs))"
  let ?fs = "(fs s)\<lparr>files := (files (fs s))(?name \<mapsto> ?file)\<rparr>"
  let ?s0 = "NewStorage ?fs"
  have c: "CreateSnapshot path start end s = (None, s\<lparr>fs := ?fs\<rparr>)"
    by (simp add: CreateSnapshot_file[OF m cr w] all put_file_def)
  have op0: "Open_err (fs ?s0) ?name = None" and rd0: "reads_ok (fs ?s0)"
    and f0: "files (fs ?s0) ?name = Some ?file"
    using op rd by (simp_all add: NewStorage_def reads_ok_def)
  have k0: "kv ?s0 = []" by (simp add: NewStorage_def NewKVTree_def)
  have rs: "readBytes (fs ?s0) (frame start @ rest) = Some (Inr start, rest)" for rest
    by (rule readBytes_frame[OF rd0 st(2)])
  have re: "readBytes (fs ?s0) (frame end @ rest) = Some (Inr end, rest)" for rest
    by (rule readBytes_frame[OF rd0 en])
  have "\<exists>r s'. ApplySnapshot path ?s0 = Some (r, s') \<and> (end \<noteq> [] \<longrightarrow> r = None) \<and> kv s' = kv s"
  proof (cases "end = []")
    case True
    from True inr have "?xs = []" by (cases ?xs) (auto simp: in_range_empty_end)
    moreover have "ApplySnapshot path ?s0 = Some (Some ErrMissingEnd, ?s0)"
      using st(1) True re op0 f0 rs by (simp add: ApplySnapshot_def Let_def)
    ultimately show ?thesis using True k0 by simp
  next
    case False
    have fr: "list_all framable ?xs"
    proof -
      have "framable p" if "p \<in> set ?xs" for p
      proof -
        obtain k v where p: "p = (k, v)" by (cases p)
        from inr that have "in_range start end k" by (auto simp: list_all_iff p)
        then have "k \<noteq> []" using st(1) by (rule in_range_not_Nil)
        moreover from short that have "length k < 2 ^ 32 \<and> v \<noteq> [] \<and> length v < 2 ^ 32"
          by (auto simp: list_all_iff p)
        ultimately show ?thesis by (simp add: framable_def p)
      qed
      then show ?thesis by (simp add: list_all_iff)
    qed
    let ?s' = "fold (\<lambda>(k, v). ApplySnapshot_put k v) ?xs ?s0"
    have e0: "?s0\<lparr>kv := kv_RangeDelete start end (kv ?s0)\<rparr> = ?s0"
      unfolding k0 by (simp add: kv_RangeDelete_def NewStorage_def NewKVTree_def)
    have a: "ApplySnapshot path ?s0 = Some (None, ?s')"
      using st(1) False
      by (simp add: ApplySnapshot_def Let_def op0 f0 rs re e0 ApplySnapshot_loop_frames[OF rd0 fr])
    have "kv ?s' = fold (\<lambda>(k, v). kv_Put k v) ?xs []"
      by (simp add: kv_fold_ApplySnapshot_put k0)
    also have "\<dots> = ?xs"
      using fold_kv_Put_sorted[of "[]" ?xs] sorted by simp
    finally have "kv ?s' = kv s" .
    with a show ?thesis by simp
  qed
  then obtain r s' where a: "ApplySnapshot path ?s0 = Some (r, s')" "end \<noteq> [] \<longrightarrow> r = None" "kv s' = kv s"
    by blast
  from a(3) have sc: "\<forall>clock a b h p st. Scan clock a b h p s' st = Scan clock a b h p s st"
    by (simp add: Scan_def)
  from c a sc show ?thesis by auto
qed

theorem snapshot_roundtrip_witness:
  "snapshot_ready [1] [3] (kv two_rows)
   \<and> fs_ok ''snap'' (fs two_rows)
   \<and> fst (CreateSnapshot ''snap'' [1] [3] two_rows) = None
   \<and> map_option fst (ApplySnapshot ''snap'' (snapshot_of ''snap'' [1] [3] two_rows)) = Some None
   \<and> map_option (kv \<circ> snd) (ApplySnapshot ''snap'' (snapshot_of ''snap'' [1] [3] two_rows))
       = Some [([1], encodeValue [9] 0), ([2], encodeValue [9] 0)]"
proof -
  have r: "snapshot_ready [1] [3] (kv two_rows)"
    by (simp add: snapshot_ready_def all_in_range_def kv_two_rows in_range_def encodeValue_def
        length_Int64ToBytes)
  have ok: "fs_ok ''snap'' (fs two_rows)" by (simp add: fs_two_rows fs_ok_emptyFS)
  from snapshot_roundtrip[OF r ok] r ok show ?thesis
    by (auto simp: snapshot_of_def kv_two_rows)
qed

section \<open>Properties of the evict-leader scheduler\<close>


lemma length_scheduleOnce_step:
  "length (scheduleOnce_step cluster round cid ops) \<le> Suc (length ops)"
  by (simp add: scheduleOnce_step_def split: option.splits sum.splits)

lemma length_fold_scheduleOnce_step:
  "length (fold (scheduleOnce_step cluster round) conf ops) \<le> length ops + length conf"
proof (induction conf arbitrary: ops)
  case Nil
  show ?case by simp
next
  case (Cons cid conf)
  have "length (fold (scheduleOnce_step cluster round) conf (scheduleOnce_step cluster round cid ops))
        \<le> length (scheduleOnce_step cluster round cid ops) + length conf"
    by (rule Cons.IH)
  also have "\<dots> \<le> Suc (length ops) + length conf"
    using length_scheduleOnce_step[of cluster round cid ops] by simp
  finally show ?case by simp
qed

lemma length_scheduleOnce: "length (scheduleOnce cluster conf round) \<le> length conf"
  using length_fold_scheduleOnce_step[of cluster round conf "[]"] by (simp add: scheduleOnce_def)

lemma length_uniqueAppend_loop:
  "length (uniqueAppend_loop resIDs dst src) \<le> length dst + length src"
proof (induction src arbitrary: resIDs dst)
  case Nil
  show ?case by simp
next
  case (Cons x src)
  show ?case
    using Cons.IH[of resIDs dst] Cons.IH[of "insert (op_ResourceID x) resIDs" "dst @ [x]"]
    by simp
qed

lemma length_uniqueAppend: "length (uniqueAppend dst src) \<le> length dst + length src"
  by (simp add: uniqueAppend_def length_uniqueAppend_loop)

lemma distinct_uniqueAppend_loop:
  "resIDs = set (map op_ResourceID dst) \<Longrightarrow> distinct (map op_ResourceID dst) \<Longrightarrow>
   distinct (map op_ResourceID (uniqueAppend_loop resIDs dst src))"
proof (induction src arbitrary: resIDs dst)
  case Nil
  then show ?case by simp
next
  case (Cons x src)
  show ?case
  proof (cases "op_ResourceID x \<in> resIDs")
    case True
    with Cons.IH[OF Cons.prems] show ?thesis by simp
  next
    case False
    have "insert (op_ResourceID x) resIDs = set (map op_ResourceID (dst @ [x]))"
      using Cons.prems(1) by simp
    moreover have "distinct (map op_ResourceID (dst @ [x]))"
      using Cons.prems False by simp
    ultimately have "distinct (map op_ResourceID
        (uniqueAppend_loop (insert (op_ResourceID x) resIDs) (dst @ [x]) src))"
      by (rule Cons.IH)
    with False show ?thesis by simp
  qed
qed

lemma distinct_uniqueAppend:
  "distinct (map op_ResourceID dst) \<Longrightarrow> distinct (map op_ResourceID (uniqueAppend dst src))"
  by (simp add: uniqueAppend_def distinct_uniqueAppend_loop)

lemma distinct_Schedule_loop:
  "distinct (map op_ResourceID ops) \<Longrightarrow>
   distinct (map op_ResourceID (Schedule_loop cluster conf i ops))"
proof (induction cluster conf i ops rule: Schedule_loop.induct)
  case (1 cluster conf i ops)
  note d = distinct_uniqueAppend[OF "1.prems", of "scheduleOnce cluster conf i"]
  show ?case
    apply (subst Schedule_loop.simps)
    using "1.IH"[OF _ refl _ refl _ d] "1.prems" d
    apply (simp add: Let_def)
    done
qed

lemma length_Schedule_loop:
  "length ops \<le> EvictLeaderBatchSize \<Longrightarrow>
   length (Schedule_loop cluster conf i ops) \<le> EvictLeaderBatchSize + length conf"
proof (induction cluster conf i ops rule: Schedule_loop.induct)
  case (1 cluster conf i ops)
  let ?once = "scheduleOnce cluster conf i"
  let ?ops' = "uniqueAppend ops ?once"
  have l: "length ?ops' \<le> EvictLeaderBatchSize + length conf"
    using length_uniqueAppend[of ops ?once] length_scheduleOnce[of cluster conf i] "1.prems"
    by linarith
  show ?case
    apply (subst Schedule_loop.simps)
    using "1.IH"[OF _ refl _ refl] "1.prems" l
    apply (simp add: Let_def)
    done
qed

lemma length_Schedule_loop_single:
  "length conf \<le> 1 \<Longrightarrow> length ops \<le> i \<Longrightarrow> i \<le> EvictLeaderBatchSize \<Longrightarrow>
   length (Schedule_loop cluster conf i ops) \<le> EvictLeaderBatchSize"
proof (induction cluster conf i ops rule: Schedule_loop.induct)
  case (1 cluster conf i ops)
  let ?once = "scheduleOnce cluster conf i"
  let ?ops' = "uniqueAppend ops ?once"
  have l: "length ?ops' \<le> i + 1"
    using length_uniqueAppend[of ops ?once] length_scheduleOnce[of cluster conf i] "1.prems"
    by linarith
  show ?case
    apply (subst Schedule_loop.simps)
    using "1.IH"[OF _ refl _ refl _ "1.prems"(1)] "1.prems" l
    apply (simp add: Let_def)
    done
qed

text \<open>
  The part of C3 that holds: whatever the cluster answers, the operators of one
  \<^verbatim>\<open>Schedule\<close> target pairwise distinct resources. Their number is bounded only by
  \<open>3 + n\<close> for \<open>n\<close> configured container ids.
\<close>

lemma Schedule_distinct_resources:
  "distinct (map op_ResourceID (Schedule cluster conf))
   \<and> length (Schedule cluster conf) \<le> EvictLeaderBatchSize + length conf"
  using distinct_Schedule_loop[of "[]" cluster conf 0]
    length_Schedule_loop[of "[]" cluster conf 0]
  by (simp add: Schedule_def)

text \<open>
  C3. The claim that one \<^verbatim>\<open>Schedule\<close> returns at most 3 operators, the batch size that
  the comment on \<^verbatim>\<open>EvictLeaderBatchSize\<close> calls the number of operators of one
  scheduling, fails on the code. With four configured containers that each lead a resource
  of their own, the first round yields four operators and all four are returned. With
  three configured containers whose leaders change from round to round, the first round
  fills the batch with three operators, the test \<open>len(ops) > 3\<close> lets a second round
  run, and six operators are returned.
\<close>

theorem Schedule_exceeds_batch:
  "EvictLeaderBatchSize = 3
   \<and> map op_ResourceID (Schedule own_leader_cluster [1, 2, 3, 4]) = [1, 2, 3, 4]
   \<and> length (Schedule own_leader_cluster [1, 2, 3, 4]) = 4
   \<and> map op_ResourceID (Schedule fresh_leader_cluster [1, 2, 3]) = [1, 2, 3, 11, 12, 13]
   \<and> length (Schedule fresh_leader_cluster [1, 2, 3]) = 6"
  by (simp add: Schedule_def EvictLeaderBatchSize_def scheduleOnce_def scheduleOnce_step_def
        own_leader_cluster_def fresh_leader_cluster_def uniqueAppend_def Let_def)

section \<open>Properties of the prophet client\<close>

lemma do_loop_error: "do_loop obs = Some (Some e) \<Longrightarrow> e = ErrClosed"
  by (induction obs) (auto split: if_splits)

lemma syncDo_never_NotLeader:
  "syncDo as slept = Some ((resp, err), t) \<Longrightarrow> err \<noteq> Some ErrNotLeader \<and> (err = None \<or> resp = None)"
  by (induction as arbitrary: slept)
     (auto split: option.splits if_splits prod.splits dest: do_loop_error)

lemma syncDo_retry:
  "not_leader a \<Longrightarrow> syncDo (a # as) slept = syncDo as (slept + 100)"
  by (cases "att_done a") (auto simp: not_leader_def sent_def)

lemma syncDo_first_answer:
  "list_all not_leader as \<Longrightarrow> sent a \<Longrightarrow> snd (att_done a) \<noteq> Some ErrNotLeader \<Longrightarrow>
   syncDo (as @ a # rest) slept =
     Some ((if snd (att_done a) = None then att_done a else (None, snd (att_done a))),
           slept + 100 * length as)"
proof (induction as arbitrary: slept)
  case Nil
  then show ?case by (cases "att_done a") (auto simp: sent_def split: option.splits)
next
  case (Cons b as)
  from Cons.prems have b: "not_leader b" and r: "list_all not_leader as" by simp_all
  show ?case
    using Cons.IH[OF r Cons.prems(2,3), of "slept + 100"] syncDo_retry[OF b, of "as @ a # rest" slept]
    by simp
qed

text \<open>
  C6. When an attempt of \<^verbatim>\<open>syncDo\<close> was sent and its context completes with the sentinel
  \<^verbatim>\<open>ErrNotLeader\<close>, \<^verbatim>\<open>syncDo\<close> sleeps 100 ms and goes on with the next attempt.
  Whatever \<^verbatim>\<open>syncDo\<close> returns is a response without error or an error other than
  \<^verbatim>\<open>ErrNotLeader\<close> without response. After any number of attempts refused with
  \<^verbatim>\<open>ErrNotLeader\<close>, the first attempt that completes otherwise is what \<^verbatim>\<open>syncDo\<close>
  returns, 100 ms later for each refusal.
\<close>

theorem syncDo_retries_NotLeader:
  "(not_leader a \<longrightarrow> syncDo (a # as) slept = syncDo as (slept + 100))
   \<and> (syncDo bs slept' = Some ((resp, err), t) \<longrightarrow>
        err \<noteq> Some ErrNotLeader \<and> (err = None \<or> resp = None))
   \<and> (list_all not_leader cs \<and> sent c \<and> snd (att_done c) \<noteq> Some ErrNotLeader \<longrightarrow>
        syncDo (cs @ c # rest) slept'' =
          Some ((if snd (att_done c) = None then att_done c else (None, snd (att_done c))),
                slept'' + 100 * length cs))"
  using syncDo_never_NotLeader[of bs slept' resp err t] syncDo_retry[of a as slept]
    syncDo_first_answer[of cs c rest slept'']
  by blast

theorem syncDo_retries_NotLeader_witness:
  "not_leader refused
   \<and> syncDo [refused, answered] 0 = syncDo [answered] 100
   \<and> syncDo [refused, answered] 0 = Some ((Some ''id'', None), 100)
   \<and> list_all not_leader [refused, refused]
   \<and> sent timed_out
   \<and> syncDo [refused, refused, timed_out, answered] 0 = Some ((None, Some ErrTimeout), 200)"
proof -
  have n: "not_leader refused"
    by (simp add: not_leader_def sent_def refused_def sending_def)
  have s: "sent timed_out" "snd (att_done timed_out) \<noteq> Some ErrNotLeader"
    by (simp_all add: sent_def timed_out_def sending_def)
  have r: "syncDo [refused, answered] 0 = Some ((Some ''id'', None), 100)"
    by (simp add: refused_def answered_def sending_def)
  from n have l: "list_all not_leader [refused, refused]" by simp
  from syncDo_retries_NotLeader[of refused "[answered]" 0 "[refused, answered]" 0
      "Some ''id''" None 100 "[refused, refused]" timed_out "[answered]" 0] n s r l
  show ?thesis by (simp add: timed_out_def)
qed

lemma stopper_Stop_running:
  "readLoop_running c \<Longrightarrow> writeLoop_running c \<Longrightarrow>
   stopper_Stop c = c\<lparr>contexts := map (\<lambda>(id, x). (id, ctx_done (Some ErrClosed) x)) (contexts c),
     leaderConn_closed := leaderConn_closed c + 1,
     readLoop_running := False, writeLoop_running := False\<rparr>"
  by (simp add: stopper_Stop_def readLoop_stop_def writeLoop_stop_def Let_def)






section \<open>Properties of the system-time monitor\<close>

lemma StartMonitor_loop_trace:
  "StartMonitor_loop now es (2 * i) i calls =
     (calls @ filter (jumped_back now) [i ..< i + ticks es], CtxDone \<in> set es)"
proof (induction es arbitrary: i calls)
  case Nil
  show ?case by (simp add: ticks_def)
next
  case (Cons e es)
  show ?case
  proof (cases e)
    case Tick
    have t: "ticks (Tick # es) = Suc (ticks es)" by (simp add: ticks_def)
    have step: "StartMonitor_loop now (Tick # es) (2 * i) i calls =
        StartMonitor_loop now es (2 * (i + 1)) (i + 1) (if jumped_back now i then calls @ [i] else calls)"
      by (simp add: jumped_back_def)
    have ih: "StartMonitor_loop now es (2 * (i + 1)) (i + 1) cs =
        (cs @ filter (jumped_back now) [i + 1 ..< (i + 1) + ticks es], CtxDone \<in> set es)" for cs
      by (rule Cons.IH)
    have rng: "[i ..< i + Suc (ticks es)] = i # [i + 1 ..< (i + 1) + ticks es]"
      by (simp add: upt_conv_Cons)
    show ?thesis unfolding Tick t step ih rng by simp
  next
    case CtxDone
    then show ?thesis by (simp add: ticks_def)
  qed
qed

lemma steady_no_jump: "steady now \<Longrightarrow> \<not> jumped_back now i"
  by (auto simp: steady_def jumped_back_def word_sle_eq word_sless_alt
      dest!: spec[of _ "2 * i"])

text \<open>
  C7. In the turns of the loop that the ticker wakes (those before the first turn in which
  the context is done), the handler is called exactly in the turns whose second clock
  sample is strictly less than the sample taken at the start of the turn; with a clock
  that never goes back it is never called; and \<^verbatim>\<open>StartMonitor\<close> has returned exactly when
  the context has been found done.
\<close>

theorem StartMonitor_trace:
  "StartMonitor now es = (filter (jumped_back now) [0 ..< ticks es], CtxDone \<in> set es)
   \<and> (steady now \<longrightarrow> fst (StartMonitor now es) = [])"
  using StartMonitor_loop_trace[of now es 0 "[]"]
  by (simp add: StartMonitor_def steady_no_jump)

theorem StartMonitor_trace_witness:
  "steady frozen_clock
   \<and> StartMonitor frozen_clock [Tick, Tick, CtxDone, Tick] = ([], True)
   \<and> StartMonitor jumping_clock [Tick, Tick, CtxDone, Tick] = ([1], True)
   \<and> StartMonitor jumping_clock [Tick, Tick, Tick] = ([1], False)"
proof -
  have s: "steady frozen_clock" by (simp add: steady_def frozen_clock_def)
  have a: "StartMonitor jumping_clock [Tick, Tick, CtxDone, Tick] = ([1], True)"
    by (simp add: StartMonitor_def jumping_clock_def word_sless_alt)
  have b: "StartMonitor jumping_clock [Tick, Tick, Tick] = ([1], False)"
    by (simp add: StartMonitor_def jumping_clock_def word_sless_alt)
  from StartMonitor_trace[of frozen_clock "[Tick, Tick, CtxDone, Tick]"] s a b
  show ?thesis by (simp add: ticks_def prod_eq_iff steady_no_jump)
qed

end
